theory Spec2Isabelle
  imports
    Main
    "HOL-Library.AList"
    "HOL-Library.Char_ord"
    "HOL-Library.List_Lexorder"
    "HOL-Library.Multiset"
begin

section \<open>Python dictionaries\<close>

text \<open>
  A Python \<open>dict\<close> keeps its keys in insertion order: assigning to a key that is present
  replaces the value in place, assigning to a new key appends it. That is
  \<^const>\<open>AList.update\<close> on an association list. Where only the contents of a dictionary
  matter (node and edge properties), it is a map \<open>string \<rightharpoonup> string\<close> and \<open>d.update(e)\<close>
  is \<open>d ++ e\<close>.
\<close>

type_synonym attrs = "string \<rightharpoonup> string"

section \<open>The graph engine (networkx \<open>Graph\<close> and \<open>DiGraph\<close>)\<close>

text \<open>
  \<open>storage.py\<close> keeps its graph in a networkx object. The object holds two dictionaries,
  \<open>_node\<close> (node id to properties) and \<open>_adj\<close> (node id to a dictionary from neighbour
  to edge properties; the successors for a \<open>DiGraph\<close>). Every operation that adds a key
  adds it to both, so both have the same keys in the same order, and one association list
  carries them: an entry is a node id with its properties and its adjacency dictionary.
  An undirected edge \<open>u - v\<close> is stored under \<open>u\<close> and under \<open>v\<close>; a directed edge only
  under its source (the predecessor dictionary of a \<open>DiGraph\<close> is the converse and is
  computed where it is read).
\<close>

type_synonym adjacency = "(string \<times> attrs) list"

record nxgraph =
  directed :: bool
  entries :: "(string \<times> attrs \<times> adjacency) list"

definition empty_graph :: "bool \<Rightarrow> nxgraph" where
  "empty_graph d = \<lparr>directed = d, entries = []\<rparr>"

definition node_ids :: "nxgraph \<Rightarrow> string list" where
  "node_ids g = map fst (entries g)"

text \<open>\<open>G.nodes(data=True)\<close>: the nodes with their properties, in insertion order.\<close>

definition nodes_data :: "nxgraph \<Rightarrow> (string \<times> attrs) list" where
  "nodes_data g = map (\<lambda>(n, a, nb). (n, a)) (entries g)"

definition has_node :: "nxgraph \<Rightarrow> string \<Rightarrow> bool" where
  "has_node g n = (n \<in> set (node_ids g))"

definition get_node :: "nxgraph \<Rightarrow> string \<Rightarrow> attrs option" where
  "get_node g n = map_option fst (map_of (entries g) n)"

definition neighbours :: "nxgraph \<Rightarrow> string \<Rightarrow> adjacency" where
  "neighbours g n = (case map_of (entries g) n of None \<Rightarrow> [] | Some (a, nb) \<Rightarrow> nb)"

definition get_adj :: "nxgraph \<Rightarrow> string \<Rightarrow> string \<Rightarrow> attrs option" where
  "get_adj g u v = map_of (neighbours g u) v"

text \<open>
  The first lines of \<open>add_node\<close> and \<open>add_edge\<close>: a node id that is not a key of \<open>_node\<close>
  gets an empty property dictionary and an empty adjacency dictionary.
\<close>

definition ensure_node :: "nxgraph \<Rightarrow> string \<Rightarrow> nxgraph" where
  "ensure_node g n =
     (if n \<in> set (node_ids g) then g
      else g\<lparr>entries := entries g @ [(n, Map.empty, [])]\<rparr>)"

definition update_attrs :: "string \<Rightarrow> attrs \<Rightarrow> (string \<times> attrs \<times> adjacency) list
    \<Rightarrow> (string \<times> attrs \<times> adjacency) list" where
  "update_attrs n attr es = map (\<lambda>(m, a, nb). if m = n then (m, a ++ attr, nb) else (m, a, nb)) es"

definition set_adj :: "string \<Rightarrow> string \<Rightarrow> attrs \<Rightarrow> (string \<times> attrs \<times> adjacency) list
    \<Rightarrow> (string \<times> attrs \<times> adjacency) list" where
  "set_adj u v dd es =
     map (\<lambda>(m, a, nb). if m = u then (m, a, AList.update v dd nb) else (m, a, nb)) es"

text \<open>\<open>G.add_node(n, **attr)\<close>: \<open>self._node[n].update(attr)\<close> after the node exists.\<close>

definition add_node :: "nxgraph \<Rightarrow> string \<Rightarrow> attrs \<Rightarrow> nxgraph" where
  "add_node g n attr =
     (let g1 = ensure_node g n in g1\<lparr>entries := update_attrs n attr (entries g1)\<rparr>)"

text \<open>
  \<open>G.add_edge(u, v, **attr)\<close>: both endpoints are created when missing; the edge's
  dictionary is the one already stored for \<open>(u, v)\<close>, or a new one, updated with \<open>attr\<close>,
  and is stored as \<open>_adj[u][v]\<close> and, for an undirected graph, as \<open>_adj[v][u]\<close>.
\<close>

definition add_edge :: "nxgraph \<Rightarrow> string \<Rightarrow> string \<Rightarrow> attrs \<Rightarrow> nxgraph" where
  "add_edge g u v attr =
     (let g1 = ensure_node g u;
          g2 = ensure_node g1 v;
          datadict = (case get_adj g2 u v of None \<Rightarrow> Map.empty | Some d \<Rightarrow> d) ++ attr;
          es = set_adj u v datadict (entries g2)
      in g2\<lparr>entries := (if directed g then es else set_adj v u datadict es)\<rparr>)"

section \<open>Python exceptions and keyword arguments\<close>

text \<open>
  Exceptions are values: a function that can raise returns \<open>py_error + 'a\<close>, with \<open>Inl\<close>
  the exception.
\<close>

datatype py_error =
  KeyError string | ValueError string | IndexError string | TypeError string | EmbeddingError string

text \<open>
  A call \<open>f(x, **d)\<close> binds the items of \<open>d\<close> as keyword arguments. When a key of \<open>d\<close> is
  the name of a parameter that is bound already, the receiver \<open>self\<close> included, Python
  raises \<open>TypeError\<close> (multiple values for the argument) before the body of \<open>f\<close> runs;
  otherwise all items reach the parameter \<open>**attr\<close>. \<open>params\<close> are the names bound
  positionally; the message kept here names the first of them that is a key.
\<close>

definition bind_kwargs :: "string list \<Rightarrow> attrs \<Rightarrow> py_error + attrs" where
  "bind_kwargs params kwargs =
     (case [p \<leftarrow> params. kwargs p \<noteq> None] of
        [] \<Rightarrow> Inr kwargs
      | p # ps \<Rightarrow> Inl (TypeError (''got multiple values for argument '' @ p)))"

section \<open>\<open>NetworkXStorage\<close>: node and edge operations\<close>

text \<open>
  The storage object's state is its graph \<open>self._graph\<close>. \<open>upsert_node\<close> and
  \<open>upsert_edge\<close> hand the property dictionary to networkx as keyword arguments,
  \<open>add_node(node_id, **node_data)\<close> and \<open>add_edge(source, target, **edge_data)\<close>, where
  the signatures are \<open>add_node(self, node_for_adding, **attr)\<close> and
  \<open>add_edge(self, u_of_edge, v_of_edge, **attr)\<close>. A call that raises leaves the graph
  as it was.
\<close>

definition storage_has_node :: "nxgraph \<Rightarrow> string \<Rightarrow> bool" where
  "storage_has_node graph node_id = has_node graph node_id"

definition storage_get_node :: "nxgraph \<Rightarrow> string \<Rightarrow> attrs option" where
  "storage_get_node graph node_id = get_node graph node_id"

definition upsert_node :: "nxgraph \<Rightarrow> string \<Rightarrow> attrs \<Rightarrow> py_error + nxgraph" where
  "upsert_node graph node_id node_data =
     (case bind_kwargs [''self'', ''node_for_adding''] node_data of
        Inl e \<Rightarrow> Inl e
      | Inr attr \<Rightarrow> Inr (add_node graph node_id attr))"

definition upsert_edge :: "nxgraph \<Rightarrow> string \<Rightarrow> string \<Rightarrow> attrs \<Rightarrow> py_error + nxgraph" where
  "upsert_edge graph source_node_id target_node_id edge_data =
     (case bind_kwargs [''self'', ''u_of_edge'', ''v_of_edge''] edge_data of
        Inl e \<Rightarrow> Inl e
      | Inr attr \<Rightarrow> Inr (add_edge graph source_node_id target_node_id attr))"

section \<open>Record stores: \<open>JsonKVStorage\<close> and \<open>DuckDBStorage\<close>\<close>

text \<open>
  \<open>JsonKVStorage\<close> keeps its records in the dictionary \<open>self._data\<close>. \<open>d.update(e)\<close>
  assigns the items of \<open>e\<close> in order.
\<close>

definition dict_update :: "(string \<times> 'v) list \<Rightarrow> (string \<times> 'v) list \<Rightarrow> (string \<times> 'v) list" where
  "dict_update d other = fold (\<lambda>(k, v). AList.update k v) other d"

definition json_get_by_id :: "(string \<times> 'v) list \<Rightarrow> string \<Rightarrow> 'v option" where
  "json_get_by_id self_data k = map_of self_data k"

definition json_filter_keys :: "(string \<times> 'v) list \<Rightarrow> string list \<Rightarrow> string set" where
  "json_filter_keys self_data data = set [s \<leftarrow> data. s \<notin> fst ` set self_data]"

text \<open>\<open>JsonKVStorage.upsert\<close> returns \<open>left_data\<close>; the second component is the new \<open>self._data\<close>.\<close>

definition json_upsert ::
  "(string \<times> 'v) list \<Rightarrow> (string \<times> 'v) list \<Rightarrow> (string \<times> 'v) list \<times> (string \<times> 'v) list" where
  "json_upsert self_data data =
     (let left_data = [(k, v) \<leftarrow> data. k \<notin> fst ` set self_data]
      in (left_data, dict_update self_data left_data))"

text \<open>
  \<open>DuckDBStorage\<close> holds a connection to the table \<open>kv_store\<close> (key is its primary key)
  and \<open>self._data\<close>, the rows \<open>fetchall()\<close> returned when the store was opened: a list of
  \<open>(key, value)\<close> tuples that no method updates. \<open>filter_keys\<close> tests \<open>s not in self._data\<close>
  for a string \<open>s\<close>: membership of a string in a list of tuples, and Python's \<open>==\<close>
  between a string and a tuple is false. The two kinds of object are the two constructors
  of \<open>pyobj\<close>.
\<close>

datatype 'v pyobj = PyStr string | PyRow string 'v

record 'v duckdb_state =
  kv_store :: "(string \<times> 'v) list"
  data_rows :: "(string \<times> 'v) list"

definition duckdb_get_by_id :: "'v duckdb_state \<Rightarrow> string \<Rightarrow> 'v option" where
  "duckdb_get_by_id st k = map_of (kv_store st) k"

definition duckdb_filter_keys :: "'v duckdb_state \<Rightarrow> string list \<Rightarrow> string set" where
  "duckdb_filter_keys st data =
     set [s \<leftarrow> data. PyStr s \<notin> set (map (\<lambda>(k, v). PyRow k v) (data_rows st))]"

text \<open>
  \<open>DuckDBStorage.upsert\<close>: one \<open>INSERT ... ON CONFLICT(key) DO UPDATE SET value =
  excluded.value\<close> per item, then the returned dictionary.
\<close>

definition duckdb_upsert ::
  "'v duckdb_state \<Rightarrow> (string \<times> 'v) list \<Rightarrow> (string \<times> 'v) list \<times> 'v duckdb_state" where
  "duckdb_upsert st data =
     (let st1 = st\<lparr>kv_store := fold (\<lambda>(key, value). AList.update key value) data (kv_store st)\<rparr>;
          existing_keys = duckdb_filter_keys st1 (map fst data);
          left_data = [(k, v) \<leftarrow> data. k \<notin> existing_keys]
      in (left_data, st1))"

section \<open>Vector stores: \<open>NanoVectorDBStorage\<close> and \<open>ChromaDBStorage\<close>\<close>

text \<open>
  The embedding function is the caller's; it takes a batch of
  strings and returns one vector per string or raises, so it is a parameter of type
  \<open>string list \<Rightarrow> py_error + 'e list\<close>, with \<open>'e\<close> the type of a vector. The records to
  upsert are a dictionary from key to a dictionary of string fields.
\<close>

text \<open>A value of an entry of \<open>list_data\<close>: a string field, or the vector under \<open>__vector__\<close>.\<close>

datatype 'e field = Text string | Vector 'e

type_synonym record_data = "(string \<times> (string \<times> string) list) list"

type_synonym 'e embedding_func = "string list \<Rightarrow> py_error + 'e list"

record vector_config =
  meta_fields :: "string list"
  max_batch_size :: int

text \<open>
  \<open>list_data\<close>: per record the dictionary \<open>{"__id__": k, **{allow-listed fields of v}}\<close>.
\<close>

definition make_list_data :: "string list \<Rightarrow> record_data \<Rightarrow> (string \<times> 'e field) list list" where
  "make_list_data mf data =
     map (\<lambda>(k, v). dict_update [(''__id__'', Text k)] [(k1, Text v1). (k1, v1) \<leftarrow> v, k1 \<in> set mf]) data"

text \<open>\<open>[v["content"] for v in data.values()]\<close>; a record without \<open>content\<close> raises \<open>KeyError\<close>.\<close>

fun contents_of :: "record_data \<Rightarrow> py_error + string list" where
  "contents_of [] = Inr []"
| "contents_of ((k, v) # rest) =
     (case map_of v ''content'' of
        None \<Rightarrow> Inl (KeyError ''content'')
      | Some c \<Rightarrow> (case contents_of rest of Inl e \<Rightarrow> Inl e | Inr cs \<Rightarrow> Inr (c # cs)))"

text \<open>
  \<open>range(0, stop, step)\<close>: a zero step raises \<open>ValueError\<close>, a negative one gives the empty
  range.
\<close>

definition py_range :: "nat \<Rightarrow> int \<Rightarrow> py_error + nat list" where
  "py_range stop step =
     (if step = 0 then Inl (ValueError ''range() arg 3 must not be zero'')
      else if step < 0 then Inr []
      else Inr (map (\<lambda>j. j * nat step) [0 ..< (stop + nat step - 1) div nat step]))"

text \<open>\<open>[contents[i : i + n] for i in range(0, len(contents), n)]\<close>.\<close>

definition make_batches :: "int \<Rightarrow> 'a list \<Rightarrow> py_error + 'a list list" where
  "make_batches n contents =
     (case py_range (length contents) n of
        Inl e \<Rightarrow> Inl e
      | Inr starts \<Rightarrow> Inr (map (\<lambda>i. take (nat n) (drop i contents)) starts))"

text \<open>
  \<open>await asyncio.gather(*calls)\<close>: the results in the order of the calls when every call
  returns; an exception of a call is raised to the caller. The calls have no effect on
  the store, so their interleaving is not modelled, and of several failing calls the model
  reports the first in batch order.
\<close>

fun gather :: "(py_error + 'a) list \<Rightarrow> py_error + 'a list" where
  "gather [] = Inr []"
| "gather (Inl e # rs) = Inl e"
| "gather (Inr x # rs) = (case gather rs of Inl e \<Rightarrow> Inl e | Inr xs \<Rightarrow> Inr (x # xs))"

text \<open>\<open>np.concatenate\<close> joins the per-batch arrays row-wise and refuses an empty sequence.\<close>

definition np_concatenate :: "'a list list \<Rightarrow> py_error + 'a list" where
  "np_concatenate arrays =
     (if arrays = [] then Inl (ValueError ''need at least one array to concatenate'')
      else Inr (concat arrays))"

text \<open>
  \<open>for i, d in enumerate(list_data): d["__vector__"] = embeddings[i]\<close>; reading past the
  end of \<open>embeddings\<close> raises \<open>IndexError\<close>.
\<close>

definition attach_vectors :: "(string \<times> 'e field) list list \<Rightarrow> 'e list \<Rightarrow> py_error + (string \<times> 'e field) list list" where
  "attach_vectors list_data embeddings =
     (if length embeddings < length list_data then Inl (IndexError ''index out of bounds'')
      else Inr (map (\<lambda>(i, d). AList.update ''__vector__'' (Vector (embeddings ! i)) d) (enumerate 0 list_data)))"

text \<open>
  \<open>NanoVectorDBStorage.upsert\<close>, from \<open>list_data\<close> to the loop that attaches the vectors:
  what is handed to the client, or the exception raised before.
\<close>

definition nano_list_data ::
  "vector_config \<Rightarrow> 'e embedding_func \<Rightarrow> record_data \<Rightarrow> py_error + (string \<times> 'e field) list list" where
  "nano_list_data cfg embedding_func data =
     (let list_data = make_list_data (meta_fields cfg) data in
      case contents_of data of Inl e \<Rightarrow> Inl e | Inr contents \<Rightarrow>
      case make_batches (max_batch_size cfg) contents of Inl e \<Rightarrow> Inl e | Inr batches \<Rightarrow>
      case gather (map embedding_func batches) of Inl e \<Rightarrow> Inl e | Inr embeddings_list \<Rightarrow>
      case np_concatenate embeddings_list of Inl e \<Rightarrow> Inl e | Inr embeddings \<Rightarrow>
        attach_vectors list_data embeddings)"

text \<open>
  \<open>NanoVectorDBStorage.upsert\<close>. The vector index \<open>self._client\<close> is an engine outside the
  repository: its \<open>upsert\<close> is a parameter that takes the client's state and the records
  and returns its report and the new state. The result is the outcome paired with the
  client's state after the call; \<open>NoData\<close> is the \<open>[]\<close> returned for empty input.
\<close>

datatype 'r upsert_result = NoData | Upserted 'r

definition nano_upsert ::
  "vector_config \<Rightarrow> 'e embedding_func \<Rightarrow> ('c \<Rightarrow> (string \<times> 'e field) list list \<Rightarrow> 'r \<times> 'c)
     \<Rightarrow> 'c \<Rightarrow> record_data \<Rightarrow> (py_error + 'r upsert_result) \<times> 'c" where
  "nano_upsert cfg embedding_func client_upsert client data =
     (if length data = 0 then (Inr NoData, client)
      else case nano_list_data cfg embedding_func data of
        Inl e \<Rightarrow> (Inl e, client)
      | Inr list_data \<Rightarrow>
          (case client_upsert client list_data of (results, client') \<Rightarrow> (Inr (Upserted results), client')))"

text \<open>
  A Chroma collection maps an id to its document and embedding. \<open>collection.upsert\<close>
  refuses id, document and embedding lists of unequal length and otherwise writes every
  id. A document is a content string or the \<open>json.dumps\<close> of a dictionary.
\<close>

datatype 'e document = Content string | Json "(string \<times> 'e field) list"

type_synonym 'e collection = "(string \<times> 'e document \<times> 'e) list"

definition collection_upsert ::
  "'e collection \<Rightarrow> string list \<Rightarrow> 'e document list \<Rightarrow> 'e list \<Rightarrow> py_error + 'e collection" where
  "collection_upsert col ids documents embeddings =
     (if length ids = 0 then Inl (ValueError ''expected a non-empty list of ids'')
      else if length documents = length ids \<and> length embeddings = length ids
      then Inr (fold (\<lambda>(i, d, e). AList.update i (d, e)) (zip ids (zip documents embeddings)) col)
      else Inl (ValueError ''unequal lengths of ids, documents and embeddings''))"

text \<open>
  The loop \<open>for i, d in enumerate(list_data)\<close> of \<open>ChromaDBStorage.upsert\<close>: one
  \<open>collection.upsert\<close> per entry, with \<open>ids[i]\<close> and \<open>embeddings[i]\<close>. It returns the
  exception that ended the loop, if any, and the collection with the writes made so far.
\<close>

fun upsert_each ::
  "'e collection \<Rightarrow> string list \<Rightarrow> 'e list \<Rightarrow> nat \<Rightarrow> (string \<times> 'e field) list list
     \<Rightarrow> py_error option \<times> 'e collection" where
  "upsert_each col ids embeddings i [] = (None, col)"
| "upsert_each col ids embeddings i (d # ds) =
     (if length ids \<le> i then (Some (IndexError ''list index out of range''), col)
      else if length embeddings \<le> i then (Some (IndexError ''index out of bounds''), col)
      else case collection_upsert col [ids ! i] [Json (AList.delete ''__id__'' d)] [embeddings ! i] of
             Inl e \<Rightarrow> (Some e, col)
           | Inr col' \<Rightarrow> upsert_each col' ids embeddings (Suc i) ds)"

text \<open>
  \<open>ChromaDBStorage.upsert\<close>, after \<open>get_or_create_collection\<close> returned the collection.
  \<open>collection.get()\<close> returns a dictionary with the key \<open>ids\<close> among others, so
  \<open>len(existing_docs) > 0\<close> holds. The \<open>try\<close> around the writes turns an exception into
  the result \<open>[]\<close>; the embedding calls are outside it.
\<close>

definition chroma_upsert ::
  "vector_config \<Rightarrow> 'e embedding_func \<Rightarrow> 'e collection \<Rightarrow> record_data
     \<Rightarrow> (py_error + string list) \<times> 'e collection" where
  "chroma_upsert cfg embedding_func collection data =
     (if length data = 0 then (Inr [], collection)
      else
        let ids = map fst data;
            list_data = make_list_data (meta_fields cfg) data
        in
        case contents_of data of Inl e \<Rightarrow> (Inl e, collection) | Inr contents \<Rightarrow>
        case make_batches (max_batch_size cfg) contents of Inl e \<Rightarrow> (Inl e, collection) | Inr batches \<Rightarrow>
          let existing_ids = map fst collection;
              missing_ids = [id \<leftarrow> ids. id \<notin> set existing_ids]
          in
          if length missing_ids = 0 then (Inr ids, collection)
          else
            case gather (map embedding_func batches) of Inl e \<Rightarrow> (Inl e, collection) | Inr embeddings_list \<Rightarrow>
            case np_concatenate embeddings_list of Inl e \<Rightarrow> (Inl e, collection) | Inr embeddings \<Rightarrow>
              if length (meta_fields cfg) > 0
              then (case upsert_each collection missing_ids embeddings 0 list_data of
                      (Some e, col') \<Rightarrow> (Inr [], col')
                    | (None, col') \<Rightarrow> (Inr missing_ids, col'))
              else (case collection_upsert collection missing_ids (map Content contents) embeddings of
                      Inl e \<Rightarrow> (Inr [], collection)
                    | Inr col' \<Rightarrow> (Inr missing_ids, col')))"

text \<open>Concrete inputs for the examples: two embedding functions, a client that records
  what it is handed, and two record dictionaries.\<close>

definition len_embedding :: "nat embedding_func" where
  "len_embedding batch = Inr (map length batch)"

definition short_embedding :: "nat embedding_func" where
  "short_embedding batch =
     (if list_ex (\<lambda>s. 2 < length s) batch then Inl (EmbeddingError ''text too long'')
      else Inr (map length batch))"

definition log_client_upsert :: "'d list \<Rightarrow> 'd list \<Rightarrow> nat \<times> 'd list" where
  "log_client_upsert client datas = (length datas, client @ datas)"

definition three_records :: record_data where
  "three_records =
     [(''a'', [(''content'', ''x''), (''source'', ''s1'')]),
      (''b'', [(''content'', ''yy''), (''source'', ''s2'')]),
      (''c'', [(''content'', ''zzz'')])]"

definition two_records :: record_data where
  "two_records =
     [(''a'', [(''content'', ''x''), (''source'', ''s1'')]),
      (''b'', [(''content'', ''yy''), (''source'', ''s2'')])]"

section \<open>The graph engine: iteration, bulk insertion, relabelling\<close>

text \<open>
  \<open>G.edges(data=True)\<close>. For an undirected graph networkx walks the adjacency in node
  order and reports an edge from the first endpoint it reaches: a neighbour that is
  already in \<open>seen\<close> is skipped, and a node enters \<open>seen\<close> after its neighbours were
  walked. For a \<open>DiGraph\<close> every successor entry is an edge.
\<close>

fun undirected_edges :: "string list \<Rightarrow> (string \<times> attrs \<times> adjacency) list \<Rightarrow> (string \<times> string \<times> attrs) list" where
  "undirected_edges seen [] = []"
| "undirected_edges seen ((n, a, nbrs) # es) =
     [(n, nbr, dd). (nbr, dd) \<leftarrow> nbrs, nbr \<notin> set seen] @ undirected_edges (n # seen) es"

definition edges_data :: "nxgraph \<Rightarrow> (string \<times> string \<times> attrs) list" where
  "edges_data g =
     (if directed g then [(n, nbr, dd). (n, a, nbrs) \<leftarrow> entries g, (nbr, dd) \<leftarrow> nbrs]
      else undirected_edges [] (entries g))"

text \<open>
  \<open>G.add_nodes_from\<close> on \<open>(node, dict)\<close> pairs and \<open>G.add_edges_from\<close> on
  \<open>(u, v, dict)\<close> triples do what \<open>add_node\<close> and \<open>add_edge\<close> do, item by item.
\<close>

definition add_nodes_from :: "nxgraph \<Rightarrow> (string \<times> attrs) list \<Rightarrow> nxgraph" where
  "add_nodes_from g ns = fold (\<lambda>(n, ndict) h. add_node h n ndict) ns g"

definition add_edges_from :: "nxgraph \<Rightarrow> (string \<times> string \<times> attrs) list \<Rightarrow> nxgraph" where
  "add_edges_from g ebunch = fold (\<lambda>(u, v, dd) h. add_edge h u v dd) ebunch g"

text \<open>\<open>H._node[n] = d\<close> for a node that exists: the property dictionary is replaced.\<close>

definition set_node_attrs :: "string \<Rightarrow> attrs \<Rightarrow> (string \<times> attrs \<times> adjacency) list
    \<Rightarrow> (string \<times> attrs \<times> adjacency) list" where
  "set_node_attrs n d es = map (\<lambda>(m, a, nb). if m = n then (m, d, nb) else (m, a, nb)) es"

text \<open>
  \<open>nx.relabel_nodes(G, mapping)\<close> with the default \<open>copy=True\<close>: a new graph of the same
  class gets the mapped node ids in node order, then \<open>H._node.update\<close> assigns to each
  mapped id the properties of the node it comes from (of the last such node when ids
  collide), then the edges of \<open>G\<close> are added with both endpoints mapped, so that edges
  which collide are merged by \<open>add_edge\<close>. The mapping of \<open>storage.py\<close> is a dictionary
  defined on every node, here a function.
\<close>

definition relabel_nodes :: "nxgraph \<Rightarrow> (string \<Rightarrow> string) \<Rightarrow> nxgraph" where
  "relabel_nodes G mapping =
     (let H0 = empty_graph (directed G);
          H1 = add_nodes_from H0 (map (\<lambda>n. (mapping n, Map.empty)) (node_ids G));
          H2 = H1\<lparr>entries := fold (\<lambda>(n, d). set_node_attrs (mapping n) d) (nodes_data G) (entries H1)\<rparr>;
          new_edges = map (\<lambda>(n1, n2, d). (mapping n1, mapping n2, d)) (edges_data G)
      in add_edges_from H2 new_edges)"

section \<open>Connected components (networkx) and the largest one (graspologic)\<close>

text \<open>
  \<open>nx.connected_components\<close> walks the nodes in node order and, from every node not yet
  seen, collects the set that a breadth-first search reaches along \<open>_adj\<close>;
  \<open>nx.weakly_connected_components\<close>, used for a \<open>DiGraph\<close>, follows successors and
  predecessors. The search is a work list here: \<open>seen\<close> is the set collected so far, in
  the order of discovery, and the queue holds the nodes whose neighbours are still to be
  read. networkx returns the set; its order is not used below.
\<close>

definition preds :: "nxgraph \<Rightarrow> string \<Rightarrow> string list" where
  "preds g v = [u. (u, a, nb) \<leftarrow> entries g, v \<in> fst ` set nb]"

definition nbrs_of :: "nxgraph \<Rightarrow> string \<Rightarrow> string list" where
  "nbrs_of g v = map fst (neighbours g v) @ (if directed g then preds g v else [])"

text \<open>Every id that occurs in the graph; the search never leaves it.\<close>

definition universe :: "nxgraph \<Rightarrow> string set" where
  "universe g = set (node_ids g @ concat (map (\<lambda>e. map fst (snd (snd e))) (entries g)))"

function bfs :: "nxgraph \<Rightarrow> string list \<Rightarrow> string list \<Rightarrow> string list" where
  "bfs g seen [] = seen"
| "bfs g seen (v # queue) =
     (let new = remdups [w \<leftarrow> nbrs_of g v. w \<notin> set seen]
      in bfs g (seen @ new) (queue @ new))"
  by pat_completeness auto
termination
proof (relation "measures [\<lambda>(g, seen, q). card (universe g - set seen), \<lambda>(g, seen, q). length q]")
  show "wf (measures [\<lambda>(g, seen, q). card (universe g - set seen), \<lambda>(g, seen, q). length q])"
    by (rule wf_measures)
next
  fix g :: nxgraph and seen :: "string list" and v :: string and queue new :: "string list"
  assume new: "new = remdups (filter (\<lambda>w. w \<notin> set seen) (nbrs_of g v))"
  have in_universe: "w \<in> universe g" if "w \<in> set (nbrs_of g v)" for w
  proof -
    from that consider (a) "w \<in> fst ` set (neighbours g v)" | (b) "w \<in> set (preds g v)"
      by (auto simp: nbrs_of_def split: if_splits)
    then show ?thesis
    proof cases
      case a
      then obtain d where "(w, d) \<in> set (neighbours g v)" by auto
      then have "\<exists>a nb. (v, a, nb) \<in> set (entries g) \<and> (w, d) \<in> set nb"
        by (cases "map_of (entries g) v") (auto simp: neighbours_def dest: map_of_SomeD)
      then show ?thesis unfolding universe_def by force
    next
      case b
      then have "w \<in> set (node_ids g)" by (force simp: preds_def node_ids_def)
      then show ?thesis unfolding universe_def by simp
    qed
  qed
  show "((g, seen @ new, queue @ new), (g, seen, v # queue))
      \<in> measures [\<lambda>(g, seen, q). card (universe g - set seen), \<lambda>(g, seen, q). length q]"
  proof (cases "new = []")
    case True
    then show ?thesis by (simp only: in_measures append_Nil2 prod.case list.size) simp
  next
    case False
    have fin: "finite (universe g - set seen)"
      unfolding universe_def by (rule finite_Diff) (rule finite_set)
    define w where "w = hd new"
    have w: "w \<in> set new" using False by (simp add: w_def)
    have sub: "set new \<subseteq> set (nbrs_of g v) - set seen" unfolding new by (simp add: subset_iff)
    from w sub in_universe have "w \<in> universe g - set seen" by blast
    moreover have "w \<notin> universe g - set (seen @ new)" using w by simp
    moreover have "universe g - set (seen @ new) \<subseteq> universe g - set seen" by (simp add: subset_iff)
    ultimately have "universe g - set (seen @ new) \<subset> universe g - set seen" by blast
    then have "card (universe g - set (seen @ new)) < card (universe g - set seen)"
      by (rule psubset_card_mono [OF fin])
    then show ?thesis by (simp only: in_measures prod.case) simp
  qed
qed

definition plain_bfs :: "nxgraph \<Rightarrow> string \<Rightarrow> string list" where
  "plain_bfs g source = bfs g [source] [source]"

fun components :: "nxgraph \<Rightarrow> string list \<Rightarrow> string list \<Rightarrow> string list list" where
  "components g seen [] = []"
| "components g seen (v # vs) =
     (if v \<in> set seen then components g seen vs
      else (let c = plain_bfs g v in c # components g (seen @ c) vs))"

definition connected_components :: "nxgraph \<Rightarrow> string list list" where
  "connected_components g = components g [] (node_ids g)"

text \<open>
  Python's \<open>max(components, key=len)\<close> keeps the first of the longest: a later item
  replaces the current one only when it is strictly longer.
\<close>

definition py_max_len :: "'a list \<Rightarrow> 'a list list \<Rightarrow> 'a list" where
  "py_max_len c cs = foldl (\<lambda>m c. if length m < length c then c else m) c cs"

text \<open>
  \<open>graph.subgraph(nodes).copy()\<close>. The copy is a new graph of the same class; it gets the
  nodes of the subgraph view with their properties through \<open>add_nodes_from\<close>, then every
  adjacency entry of the view as an edge through \<open>add_edges_from\<close> (an undirected edge
  twice, once from each endpoint). The view walks the nodes of the graph in node order
  and keeps those of the set, unless the set holds less than half of the graph's nodes:
  then it walks the set itself. The iteration order of a Python set of strings follows
  their hashes, which change from run to run, so it is a parameter: the key \<open>pos\<close> by
  which the set is put in order (every order of a finite set is the order of some key).
  The adjacency dictionary of a node is walked in its own order in both cases.
\<close>

definition subgraph_nodes :: "(string \<Rightarrow> nat) \<Rightarrow> nxgraph \<Rightarrow> string list \<Rightarrow> string list" where
  "subgraph_nodes pos g ns =
     (if 2 * length (remdups ns) < length (node_ids g)
      then sort_key pos [n \<leftarrow> remdups ns. n \<in> set (node_ids g)]
      else [n \<leftarrow> node_ids g. n \<in> set ns])"

definition induced_subgraph :: "(string \<Rightarrow> nat) \<Rightarrow> nxgraph \<Rightarrow> string list \<Rightarrow> nxgraph" where
  "induced_subgraph pos g ns =
     (let walk = subgraph_nodes pos g ns;
          G0 = empty_graph (directed g);
          G1 = add_nodes_from G0
                 [(n, case get_node g n of None \<Rightarrow> Map.empty | Some d \<Rightarrow> d). n \<leftarrow> walk];
          all_edges = [(u, v, dd). u \<leftarrow> walk, (v, dd) \<leftarrow> neighbours g u, v \<in> set ns]
      in add_edges_from G1 all_edges)"

text \<open>
  graspologic's \<open>largest_connected_component\<close> on a networkx graph: the subgraph copy on
  \<open>max(nx.connected_components(graph), key=len)\<close> (weakly connected components for a
  \<open>DiGraph\<close>). On a graph without nodes \<open>max\<close> raises \<open>ValueError\<close>.
\<close>

definition largest_connected_component :: "(string \<Rightarrow> nat) \<Rightarrow> nxgraph \<Rightarrow> py_error + nxgraph" where
  "largest_connected_component pos graph =
     (case connected_components graph of
        [] \<Rightarrow> Inl (ValueError ''max() arg is an empty sequence'')
      | c # cs \<Rightarrow> Inr (induced_subgraph pos graph (py_max_len c cs)))"

section \<open>\<open>NetworkXStorage._stabilize_graph\<close> and \<open>stable_largest_connected_component\<close>\<close>

text \<open>
  Python compares strings by code point, position by position, a proper prefix first:
  the lexicographic order of \<open>string\<close> over the order of \<open>char\<close>. \<open>sorted\<close> is stable,
  as \<^const>\<open>sort_key\<close> is.
\<close>

definition sort_source_target :: "string \<times> string \<times> attrs \<Rightarrow> string \<times> string \<times> attrs" where
  "sort_source_target edge =
     (case edge of (source, target, edge_data) \<Rightarrow>
        if source > target then (target, source, edge_data) else (source, target, edge_data))"

definition get_edge_key :: "string \<Rightarrow> string \<Rightarrow> string" where
  "get_edge_key source target = source @ '' -> '' @ target"

text \<open>The list \<open>edges\<close> of \<open>_stabilize_graph\<close> as it is handed to \<open>add_edges_from\<close>.\<close>

definition stabilized_edges :: "nxgraph \<Rightarrow> (string \<times> string \<times> attrs) list" where
  "stabilized_edges graph =
     (let edges = edges_data graph;
          edges = (if \<not> directed graph then map sort_source_target edges else edges)
      in sort_key (\<lambda>x. get_edge_key (fst x) (fst (snd x))) edges)"

definition stabilize_graph :: "nxgraph \<Rightarrow> nxgraph" where
  "stabilize_graph graph =
     (let fixed_graph = empty_graph (directed graph);
          sorted_nodes = sort_key fst (nodes_data graph);
          fixed_graph = add_nodes_from fixed_graph sorted_nodes
      in add_edges_from fixed_graph (stabilized_edges graph))"

text \<open>
  \<open>str.upper\<close>, \<open>str.strip\<close> and \<open>html.unescape\<close> are Python's, and so is the order in
  which a set of strings is iterated (\<open>set_position\<close>, the key of the subgraph copy
  above); they are parameters of the model, so that what is proved of
  \<open>stable_largest_connected_component\<close> holds whatever they compute. \<open>node_mapping\<close> is
  the value of the dictionary \<open>node_mapping\<close> at a node:
  \<open>html.unescape(node.upper().strip())\<close>.
\<close>

record pystr =
  upper :: "string \<Rightarrow> string"
  strip :: "string \<Rightarrow> string"
  html_unescape :: "string \<Rightarrow> string"
  set_position :: "string \<Rightarrow> nat"

definition node_mapping :: "pystr \<Rightarrow> string \<Rightarrow> string" where
  "node_mapping L node = html_unescape L (strip L (upper L node))"

text \<open>\<open>graph.copy()\<close> leaves the caller's graph untouched; the model has no aliasing.\<close>

definition stable_largest_connected_component :: "pystr \<Rightarrow> nxgraph \<Rightarrow> py_error + nxgraph" where
  "stable_largest_connected_component L graph =
     (case largest_connected_component (set_position L) graph of
        Inl e \<Rightarrow> Inl e
      | Inr graph \<Rightarrow> Inr (stabilize_graph (relabel_nodes graph (node_mapping L))))"

text \<open>
  The three string functions on ASCII text, for the examples: \<open>upper\<close> on the letters
  \<open>a\<close> to \<open>z\<close>, \<open>strip\<close> of Python's ASCII white space (code points 9 to 13 and 28 to
  32), and \<open>html.unescape\<close> on decimal character references of two digits with their
  semicolon, \<open>&#32;\<close> to \<open>&#99;\<close>, every other text left as it is. The examples use
  no other reference. A set is walked shortest string first.
\<close>

definition ascii_upper :: "string \<Rightarrow> string" where
  "ascii_upper s = map (\<lambda>c. if CHR ''a'' \<le> c \<and> c \<le> CHR ''z'' then char_of (of_char c - (32::nat)) else c) s"

definition is_space :: "char \<Rightarrow> bool" where
  "is_space c = (let n = (of_char c :: nat) in (9 \<le> n \<and> n \<le> 13) \<or> (28 \<le> n \<and> n \<le> 32))"

definition ascii_strip :: "string \<Rightarrow> string" where
  "ascii_strip s = rev (dropWhile is_space (rev (dropWhile is_space s)))"

definition is_digit :: "char \<Rightarrow> bool" where
  "is_digit c = (CHR ''0'' \<le> c \<and> c \<le> CHR ''9'')"

fun ascii_unescape :: "string \<Rightarrow> string" where
  "ascii_unescape (a # b # d1 # d2 # e # rest) =
     (if a = CHR ''&'' \<and> b = CHR ''#'' \<and> is_digit d1 \<and> is_digit d2 \<and> e = CHR '';''
         \<and> 32 \<le> (of_char d1 - 48) * 10 + (of_char d2 - (48::nat))
      then char_of ((of_char d1 - 48) * 10 + (of_char d2 - (48::nat))) # ascii_unescape rest
      else a # ascii_unescape (b # d1 # d2 # e # rest))"
| "ascii_unescape (a # rest) = a # ascii_unescape rest"
| "ascii_unescape [] = []"

definition ascii_str :: pystr where
  "ascii_str = \<lparr>upper = ascii_upper, strip = ascii_strip, html_unescape = ascii_unescape,
     set_position = length\<rparr>"

section \<open>Notions used to state the graph claims\<close>

text \<open>
  The invariant networkx keeps for a graph: node ids are distinct, the keys of every
  adjacency dictionary are distinct and are nodes, and in an undirected graph an edge is
  stored under both endpoints with the same properties.
\<close>

definition wf_graph :: "nxgraph \<Rightarrow> bool" where
  "wf_graph g \<longleftrightarrow>
     distinct (node_ids g)
     \<and> list_all (\<lambda>(n, a, nb). distinct (map fst nb)
          \<and> list_all (\<lambda>(m, d). m \<in> set (node_ids g) \<and> (directed g \<or> get_adj g m n = Some d)) nb)
        (entries g)"

definition adjacent :: "nxgraph \<Rightarrow> string \<Rightarrow> string \<Rightarrow> bool" where
  "adjacent g a b \<longleftrightarrow> get_adj g a b \<noteq> None \<or> get_adj g b a \<noteq> None"

definition put_adj :: "nxgraph \<Rightarrow> string \<Rightarrow> string \<Rightarrow> attrs \<Rightarrow> nxgraph" where
  "put_adj g u v dd = g\<lparr>entries := set_adj u v dd (entries g)\<rparr>"

definition edge_dict :: "nxgraph \<Rightarrow> string \<Rightarrow> string \<Rightarrow> attrs \<Rightarrow> attrs" where
  "edge_dict g u v attr = (case get_adj g u v of None \<Rightarrow> Map.empty | Some d \<Rightarrow> d) ++ attr"

definition endpoints :: "(string \<times> string \<times> attrs) list \<Rightarrow> string set" where
  "endpoints es = fst ` set es \<union> (fst \<circ> snd) ` set es"

definition edge_key :: "string \<times> string \<times> attrs \<Rightarrow> string" where
  "edge_key x = get_edge_key (fst x) (fst (snd x))"

text \<open>The order of two edges by source, then by target.\<close>

definition edge_before :: "string \<times> string \<times> attrs \<Rightarrow> string \<times> string \<times> attrs \<Rightarrow> bool" where
  "edge_before e1 e2 \<longleftrightarrow> fst e1 < fst e2 \<or> (fst e1 = fst e2 \<and> fst (snd e1) < fst (snd e2))"

section \<open>Example graphs\<close>

text \<open>Graphs built with \<open>add_edge\<close> and \<open>add_node\<close>, for the examples of the claims.\<close>

definition edge_ba_graph :: nxgraph where
  "edge_ba_graph = add_edge (empty_graph False) ''b'' ''a'' Map.empty"

definition arc_ca_graph :: nxgraph where
  "arc_ca_graph = add_edge (empty_graph True) ''c'' ''a'' Map.empty"

definition tie_graph_cd_ab :: nxgraph where
  "tie_graph_cd_ab =
     add_edge (add_edge (empty_graph False) ''c'' ''d'' Map.empty) ''a'' ''b'' Map.empty"

definition tie_graph_ab_cd :: nxgraph where
  "tie_graph_ab_cd =
     add_edge (add_edge (empty_graph False) ''a'' ''b'' Map.empty) ''c'' ''d'' Map.empty"

definition charref_graph :: nxgraph where
  "charref_graph = add_node (empty_graph False) ''&#97;'' Map.empty"

definition collide_graph :: nxgraph where
  "collide_graph = add_edge (empty_graph False) ''a'' ''A'' Map.empty"

definition prefix_graph :: nxgraph where
  "prefix_graph =
     add_edge (add_edge (empty_graph False) ''A'' ''Z'' Map.empty) ''A  B'' ''Z'' Map.empty"

text \<open>
  Auxiliary notions for the proofs: the part of the entries that carries node ids and
  adjacency, and the graphs that \<open>relabel_nodes\<close>
  and \<open>_stabilize_graph\<close> hold before they insert the edges.
\<close>

definition skeleton :: "(string \<times> attrs \<times> adjacency) list \<Rightarrow> (string \<times> adjacency) list" where
  "skeleton es = map (\<lambda>(n, a, nb). (n, nb)) es"

definition relabel_base :: "nxgraph \<Rightarrow> (string \<Rightarrow> string) \<Rightarrow> nxgraph" where
  "relabel_base G m =
     (let H1 = add_nodes_from (empty_graph (directed G)) (map (\<lambda>n. (m n, Map.empty)) (node_ids G))
      in H1\<lparr>entries := fold (\<lambda>(n, d). set_node_attrs (m n) d) (nodes_data G) (entries H1)\<rparr>)"

definition sorted_base :: "nxgraph \<Rightarrow> nxgraph" where
  "sorted_base H = add_nodes_from (empty_graph (directed H)) (sort_key fst (nodes_data H))"

text \<open>
  The keys of an adjacency dictionary in their order: \<open>ins\<close> is what an assignment does to
  the keys of a dictionary. \<open>fwd_keys\<close> are the neighbours from which \<open>edges(data=True)\<close>
  reports an edge when the nodes are in ascending order.
\<close>

definition ins :: "'a \<Rightarrow> 'a list \<Rightarrow> 'a list" where
  "ins k ks = (if k \<in> set ks then ks else ks @ [k])"

definition adj_keys :: "nxgraph \<Rightarrow> string \<Rightarrow> string list" where
  "adj_keys g n = map fst (neighbours g n)"

definition fwd_keys :: "nxgraph \<Rightarrow> string \<Rightarrow> string list" where
  "fwd_keys g n = [t \<leftarrow> adj_keys g n. directed g \<or> n \<le> t]"

section \<open>Facts about the graph engine\<close>

lemma node_ids_ensure_node:
  "node_ids (ensure_node g n) = (if n \<in> set (node_ids g) then node_ids g else node_ids g @ [n])"
  by (simp add: ensure_node_def node_ids_def)

lemma map_fst_update_attrs [simp]: "map fst (update_attrs n attr es) = map fst es"
  by (induction es) (auto simp: update_attrs_def)

lemma map_fst_set_adj [simp]: "map fst (set_adj u v dd es) = map fst es"
  by (induction es) (auto simp: set_adj_def)

lemma directed_ensure_node [simp]: "directed (ensure_node g n) = directed g"
  by (simp add: ensure_node_def)

lemma node_ids_add_node:
  "node_ids (add_node g n attr) = node_ids (ensure_node g n)"
  by (simp add: add_node_def node_ids_def Let_def)

lemma node_ids_add_edge:
  "node_ids (add_edge g u v attr) = node_ids (ensure_node (ensure_node g u) v)"
  by (simp add: add_edge_def node_ids_def Let_def)

lemma map_of_set_adj_attrs:
  "map_option fst (map_of (set_adj u v dd es) n) = map_option fst (map_of es n)"
  by (induction es) (auto simp: set_adj_def split: if_splits)

lemma get_node_ensure_node:
  "get_node (ensure_node g n) m =
     (if m = n \<and> n \<notin> set (node_ids g) then Some Map.empty else get_node g m)"
proof (cases "n \<in> set (node_ids g)")
  case True
  then show ?thesis by (simp add: get_node_def ensure_node_def)
next
  case False
  then have "map_of (entries g) n = None"
    by (simp add: node_ids_def map_of_eq_None_iff)
  with False show ?thesis
    by (auto simp: get_node_def ensure_node_def map_add_def split: option.splits)
qed

lemma get_node_add_edge:
  "get_node (add_edge g u v attr) m = get_node (ensure_node (ensure_node g u) v) m"
  by (simp add: add_edge_def get_node_def Let_def map_of_set_adj_attrs)

section \<open>Facts about the record stores\<close>

lemma map_of_fold_update:
  "map_of (fold (\<lambda>(k, v). AList.update k v) xs al) = map_of al ++ map_of (rev xs)"
  by (induction xs arbitrary: al) (auto simp: update_conv' map_add_assoc [symmetric] map_add_upd_left)

lemma map_of_rev_distinct: "distinct (map fst xs) \<Longrightarrow> map_of (rev xs) = map_of xs"
  by (metis distinct_rev map_of_inject_set rev_map set_rev)

lemma map_of_filter_keys:
  "map_of [(k, v) \<leftarrow> xs. P k] k = (if P k then map_of xs k else None)"
  by (induction xs) auto

lemma keys_filter_keys: "fst ` set [(k, v) \<leftarrow> xs. P k] = {k \<in> fst ` set xs. P k}"
  by (induction xs) auto

lemma duckdb_filter_keys_all: "duckdb_filter_keys st ks = set ks"
  by (auto simp: duckdb_filter_keys_def)

lemma duckdb_upsert_returns: "fst (duckdb_upsert st data) = []"
  by (auto simp: duckdb_upsert_def Let_def duckdb_filter_keys_all filter_empty_conv intro: rev_image_eqI)

section \<open>Facts about the vector stores\<close>






lemma gather_fails:
  "b \<in> set bs \<Longrightarrow> f b = Inl e \<Longrightarrow> \<exists>e' b'. b' \<in> set bs \<and> f b' = Inl e' \<and> gather (map f bs) = Inl e'"
proof (induction bs)
  case Nil then show ?case by simp
next
  case (Cons a bs)
  show ?case
  proof (cases "f a")
    case (Inl e0) then show ?thesis by auto
  next
    case (Inr x)
    with Cons.prems have "b \<in> set bs" by auto
    from Cons.IH [OF this Cons.prems(2)] obtain e' b' where
      "b' \<in> set bs" "f b' = Inl e'" "gather (map f bs) = Inl e'" by blast
    with Inr show ?thesis by auto
  qed
qed





lemma three_records_batches:
  "contents_of three_records = Inr [''x'', ''yy'', ''zzz'']"
  "make_batches 2 [''x'', ''yy'', ''zzz''] = Inr [[''x'', ''yy''], [''zzz'']]"
  by (simp_all add: three_records_def make_batches_def py_range_def upt_rec)

section \<open>Facts about well-formed graphs\<close>

lemma wf_graphD:
  assumes "wf_graph g"
  shows "distinct (node_ids g)"
    and "(n, a, nb) \<in> set (entries g) \<Longrightarrow> distinct (map fst nb)"
    and "(n, a, nb) \<in> set (entries g) \<Longrightarrow> (m, d) \<in> set nb \<Longrightarrow> m \<in> set (node_ids g)"
    and "\<not> directed g \<Longrightarrow> (n, a, nb) \<in> set (entries g) \<Longrightarrow> (m, d) \<in> set nb \<Longrightarrow> get_adj g m n = Some d"
  using assms by (auto simp: wf_graph_def list_all_iff)

lemma map_of_entries:
  "wf_graph g \<Longrightarrow> map_of (entries g) n = Some (a, nb) \<longleftrightarrow> (n, a, nb) \<in> set (entries g)"
  using map_of_eq_Some_iff [of "entries g" n "(a, nb)"] by (simp add: wf_graph_def node_ids_def)

lemma neighbours_entry:
  "wf_graph g \<Longrightarrow> (n, a, nb) \<in> set (entries g) \<Longrightarrow> neighbours g n = nb"
  by (simp add: neighbours_def map_of_entries [THEN iffD2])

lemma neighbours_no_entry:
  "n \<notin> set (node_ids g) \<Longrightarrow> neighbours g n = []"
  by (simp add: neighbours_def node_ids_def map_of_eq_None_iff [THEN iffD2])

lemma get_adj_SomeD:
  assumes "get_adj g u v = Some d"
  shows "\<exists>a nb. map_of (entries g) u = Some (a, nb) \<and> (u, a, nb) \<in> set (entries g) \<and> (v, d) \<in> set nb"
proof (cases "map_of (entries g) u")
  case None
  with assms show ?thesis by (simp add: get_adj_def neighbours_def)
next
  case (Some p)
  obtain a nb where p: "p = (a, nb)" by (cases p)
  with Some assms have "map_of nb v = Some d" by (simp add: get_adj_def neighbours_def)
  then have "(v, d) \<in> set nb" by (rule map_of_SomeD)
  moreover from Some p have "(u, a, nb) \<in> set (entries g)" by (auto dest: map_of_SomeD)
  ultimately show ?thesis using Some p by blast
qed

lemma get_adj_nodes:
  assumes "wf_graph g" "get_adj g u v = Some d"
  shows "u \<in> set (node_ids g)" "v \<in> set (node_ids g)"
proof -
  from get_adj_SomeD [OF assms(2)] obtain a nb where
    e: "(u, a, nb) \<in> set (entries g)" "(v, d) \<in> set nb" by blast
  from e(1) show "u \<in> set (node_ids g)" by (force simp: node_ids_def)
  from wf_graphD(3) [OF assms(1) e] show "v \<in> set (node_ids g)" .
qed

lemma get_adj_entry:
  assumes "wf_graph g" "(u, a, nb) \<in> set (entries g)"
  shows "get_adj g u v = map_of nb v"
  using assms by (simp add: get_adj_def neighbours_entry)

lemma get_adj_sym:
  assumes "wf_graph g" "\<not> directed g"
  shows "get_adj g u v = get_adj g v u"
proof -
  have *: "get_adj g y x = Some d" if "get_adj g x y = Some d" for x y d
  proof -
    from get_adj_SomeD [OF that] obtain a nb where
      e: "(x, a, nb) \<in> set (entries g)" "(y, d) \<in> set nb" by blast
    from wf_graphD(4) [OF assms(1,2) e] show ?thesis .
  qed
  show ?thesis
  proof (cases "get_adj g u v")
    case None
    then show ?thesis using * [of v u] by (cases "get_adj g v u") auto
  next
    case (Some d)
    then show ?thesis using * [of u v d] by simp
  qed
qed

lemma wf_graphI:
  assumes "distinct (node_ids g)"
    and "\<And>n a nb. (n, a, nb) \<in> set (entries g) \<Longrightarrow> distinct (map fst nb)"
    and "\<And>u v d. get_adj g u v = Some d \<Longrightarrow> v \<in> set (node_ids g)"
    and "\<And>u v d. \<not> directed g \<Longrightarrow> get_adj g u v = Some d \<Longrightarrow> get_adj g v u = Some d"
  shows "wf_graph g"
proof -
  have m: "map_of (entries g) n = Some (a, nb)" if "(n, a, nb) \<in> set (entries g)" for n a nb
    using that assms(1) by (simp add: node_ids_def)
  have ga: "get_adj g n m = Some d" if "(n, a, nb) \<in> set (entries g)" "(m, d) \<in> set nb" for n a nb m d
    using m [OF that(1)] assms(2) [OF that(1)] that(2) by (simp add: get_adj_def neighbours_def)
  show ?thesis
    unfolding wf_graph_def list_all_iff
    using assms(1) assms(2) assms(3) [OF ga] assms(4) [OF _ ga] by fastforce
qed

section \<open>Facts about adding nodes and edges\<close>

lemma map_of_set_adj:
  "map_of (set_adj u v dd es) x =
     (if x = u then map_option (\<lambda>(a, nb). (a, AList.update v dd nb)) (map_of es u) else map_of es x)"
  by (induction es) (auto simp: set_adj_def)

lemma map_of_update_attrs:
  "map_of (update_attrs n attr es) x =
     (if x = n then map_option (\<lambda>(a, nb). (a ++ attr, nb)) (map_of es n) else map_of es x)"
  by (induction es) (auto simp: update_attrs_def)

lemma map_of_set_node_attrs:
  "map_of (set_node_attrs n d es) x =
     (if x = n then map_option (\<lambda>(a, nb). (d, nb)) (map_of es n) else map_of es x)"
  by (induction es) (auto simp: set_node_attrs_def)

lemma map_fst_set_node_attrs [simp]: "map fst (set_node_attrs n d es) = map fst es"
  by (induction es) (auto simp: set_node_attrs_def)

lemma node_ids_put_adj [simp]: "node_ids (put_adj g u v dd) = node_ids g"
  by (simp add: put_adj_def node_ids_def)

lemma directed_put_adj [simp]: "directed (put_adj g u v dd) = directed g"
  by (simp add: put_adj_def)

lemma get_node_put_adj [simp]: "get_node (put_adj g u v dd) n = get_node g n"
  by (simp add: put_adj_def get_node_def map_of_set_adj_attrs)

lemma neighbours_put_adj:
  "neighbours (put_adj g u v dd) x =
     (if x = u \<and> u \<in> set (node_ids g) then AList.update v dd (neighbours g u) else neighbours g x)"
proof (cases "map_of (entries g) u")
  case None
  then have "u \<notin> set (node_ids g)" by (simp add: node_ids_def map_of_eq_None_iff)
  with None show ?thesis by (simp add: neighbours_def put_adj_def map_of_set_adj)
next
  case (Some p)
  then have "u \<in> set (node_ids g)"
    by (metis map_of_eq_None_iff node_ids_def option.distinct(1) set_map)
  with Some show ?thesis
    by (cases p) (simp add: neighbours_def put_adj_def map_of_set_adj)
qed

lemma get_adj_put_adj:
  "get_adj (put_adj g u v dd) x y =
     (if x = u \<and> y = v \<and> u \<in> set (node_ids g) then Some dd else get_adj g x y)"
  by (simp add: get_adj_def neighbours_put_adj update_conv')

lemma entries_put_adj:
  "(n, a, nb) \<in> set (entries (put_adj g u v dd)) \<Longrightarrow>
     \<exists>nb0. (n, a, nb0) \<in> set (entries g) \<and> (nb = nb0 \<or> nb = AList.update v dd nb0)"
  by (auto simp: put_adj_def set_adj_def split: if_splits)

lemma neighbours_ensure_node [simp]: "neighbours (ensure_node g n) x = neighbours g x"
proof (cases "n \<in> set (node_ids g)")
  case True then show ?thesis by (simp add: ensure_node_def)
next
  case False
  then have "map_of (entries g) n = None" by (simp add: node_ids_def map_of_eq_None_iff)
  with False show ?thesis
    by (auto simp: neighbours_def ensure_node_def map_add_def split: option.splits)
qed

lemma get_adj_ensure_node [simp]: "get_adj (ensure_node g n) x y = get_adj g x y"
  by (simp add: get_adj_def)

lemma entries_ensure_node:
  "set (entries (ensure_node g n)) \<subseteq> insert (n, Map.empty, []) (set (entries g))"
  by (auto simp: ensure_node_def)

lemma add_edge_put_adj:
  "add_edge g u v attr =
     (let g2 = ensure_node (ensure_node g u) v;
          dd = (case get_adj g u v of None \<Rightarrow> Map.empty | Some d \<Rightarrow> d) ++ attr
      in if directed g then put_adj g2 u v dd else put_adj (put_adj g2 u v dd) v u dd)"
  by (simp add: add_edge_def put_adj_def Let_def)

lemma directed_add_edge [simp]: "directed (add_edge g u v attr) = directed g"
  by (simp add: add_edge_put_adj Let_def)

lemma directed_add_node [simp]: "directed (add_node g n attr) = directed g"
  by (simp add: add_node_def Let_def)

lemma in_node_ids_ensure: "x \<in> set (node_ids (ensure_node g n)) \<longleftrightarrow> x = n \<or> x \<in> set (node_ids g)"
  by (auto simp: node_ids_ensure_node)

lemma set_node_ids_add_edge:
  "set (node_ids (add_edge g u v attr)) = insert u (insert v (set (node_ids g)))"
  by (auto simp: node_ids_add_edge node_ids_ensure_node)

lemma add_edge_cases:
  "add_edge g u v attr =
     (if directed g then put_adj (ensure_node (ensure_node g u) v) u v (edge_dict g u v attr)
      else put_adj (put_adj (ensure_node (ensure_node g u) v) u v (edge_dict g u v attr)) v u (edge_dict g u v attr))"
  unfolding edge_dict_def by (simp only: add_edge_put_adj Let_def)

lemma get_adj_add_edge_same: "get_adj (add_edge g u v attr) u v = Some (edge_dict g u v attr)"
proof (cases "directed g")
  case True
  then show ?thesis by (simp add: add_edge_cases get_adj_put_adj in_node_ids_ensure)
next
  case False
  have "get_adj (add_edge g u v attr) u v =
      get_adj (put_adj (put_adj (ensure_node (ensure_node g u) v) u v (edge_dict g u v attr)) v u
        (edge_dict g u v attr)) u v"
    using False by (simp only: add_edge_cases if_False)
  also have "\<dots> = Some (edge_dict g u v attr)"
    by (cases "u = v") (simp_all add: get_adj_put_adj in_node_ids_ensure)
  finally show ?thesis .
qed

lemma get_adj_add_edge_rev:
  "\<not> directed g \<Longrightarrow> get_adj (add_edge g u v attr) v u = Some (edge_dict g u v attr)"
  by (simp add: add_edge_cases get_adj_put_adj in_node_ids_ensure)

lemma if_not_conj: "\<not> (P \<and> Q) \<Longrightarrow> (if P \<and> Q \<and> R then a else b) = b"
  by auto

lemma get_adj_add_edge_other:
  assumes "\<not> (x = u \<and> y = v)" and "directed g \<or> \<not> (x = v \<and> y = u)"
  shows "get_adj (add_edge g u v attr) x y = get_adj g x y"
proof (cases "directed g")
  case True
  have "get_adj (add_edge g u v attr) x y =
      get_adj (put_adj (ensure_node (ensure_node g u) v) u v (edge_dict g u v attr)) x y"
    using True by (simp only: add_edge_cases if_True)
  also have "\<dots> = get_adj (ensure_node (ensure_node g u) v) x y"
    using assms(1) by (subst get_adj_put_adj) (rule if_not_conj)
  finally show ?thesis by simp
next
  case False
  with assms(2) have n: "\<not> (x = v \<and> y = u)" by blast
  have "get_adj (add_edge g u v attr) x y =
      get_adj (put_adj (put_adj (ensure_node (ensure_node g u) v) u v (edge_dict g u v attr)) v u
        (edge_dict g u v attr)) x y"
    using False by (simp only: add_edge_cases if_False)
  also have "\<dots> = get_adj (put_adj (ensure_node (ensure_node g u) v) u v (edge_dict g u v attr)) x y"
    using n by (subst get_adj_put_adj) (rule if_not_conj)
  also have "\<dots> = get_adj (ensure_node (ensure_node g u) v) x y"
    using assms(1) by (subst get_adj_put_adj) (rule if_not_conj)
  finally show ?thesis by simp
qed

lemma edge_position:
  obtains (same) "x = u" "y = v"
  | (rev) "\<not> directed g" "x = v" "y = u" "\<not> (x = u \<and> y = v)"
  | (other) "\<not> (x = u \<and> y = v)" "directed g \<or> \<not> (x = v \<and> y = u)"
  by blast

lemma neighbours_add_node [simp]: "neighbours (add_node g n attr) x = neighbours g x"
proof -
  have "neighbours (add_node g n attr) x = neighbours (ensure_node g n) x"
    by (cases "map_of (entries (ensure_node g n)) n")
       (auto simp: add_node_def Let_def neighbours_def map_of_update_attrs split: option.splits)
  then show ?thesis by simp
qed

lemma get_adj_add_node [simp]: "get_adj (add_node g n attr) x y = get_adj g x y"
  by (simp add: get_adj_def)

lemma get_node_add_node:
  "get_node (add_node g n attr) x =
     (if x = n then Some ((case get_node g n of None \<Rightarrow> Map.empty | Some a \<Rightarrow> a) ++ attr)
      else get_node g x)"
proof -
  have "get_node (add_node g n attr) x =
     (if x = n then map_option (\<lambda>a. a ++ attr) (get_node (ensure_node g n) n) else get_node (ensure_node g n) x)"
    by (cases "map_of (entries (ensure_node g n)) n")
       (auto simp: add_node_def Let_def get_node_def map_of_update_attrs)
  moreover have "get_node g n = None \<longleftrightarrow> n \<notin> set (node_ids g)"
    by (simp add: get_node_def node_ids_def map_of_eq_None_iff)
  ultimately show ?thesis
    by (auto simp: get_node_ensure_node split: option.splits)
qed

lemma entries_add_node:
  "(m, a, nb) \<in> set (entries (add_node g n attr)) \<Longrightarrow>
     nb = [] \<or> (\<exists>a0. (m, a0, nb) \<in> set (entries g))"
  by (auto simp: add_node_def Let_def update_attrs_def ensure_node_def split: if_splits)

lemma wf_empty_graph [simp]: "wf_graph (empty_graph d)"
  by (simp add: wf_graph_def empty_graph_def node_ids_def)

lemma wf_add_node:
  assumes "wf_graph g"
  shows "wf_graph (add_node g n attr)"
proof (rule wf_graphI)
  show "distinct (node_ids (add_node g n attr))"
    using wf_graphD(1) [OF assms] by (simp add: node_ids_add_node node_ids_ensure_node)
next
  fix m a nb assume "(m, a, nb) \<in> set (entries (add_node g n attr))"
  from entries_add_node [OF this] show "distinct (map fst nb)"
    using wf_graphD(2) [OF assms] by auto
next
  fix u v d assume "get_adj (add_node g n attr) u v = Some d"
  then show "v \<in> set (node_ids (add_node g n attr))"
    using get_adj_nodes(2) [OF assms] by (auto simp: node_ids_add_node in_node_ids_ensure)
next
  fix u v d assume "\<not> directed (add_node g n attr)" "get_adj (add_node g n attr) u v = Some d"
  then show "get_adj (add_node g n attr) v u = Some d"
    using get_adj_sym [OF assms, of u v] by simp
qed

lemma entries_add_edge:
  assumes "(n, a, nb) \<in> set (entries (add_edge g u v attr))"
  shows "nb = [] \<or> (\<exists>a0 nb0 w dd. (n, a0, nb0) \<in> set (entries g)
           \<and> (nb = nb0 \<or> nb = AList.update w dd nb0 \<or> (\<exists>w' dd'. nb = AList.update w' dd' (AList.update w dd nb0))))
       \<or> (\<exists>w dd. nb = AList.update w dd [] \<or> (\<exists>w' dd'. nb = AList.update w' dd' (AList.update w dd [])))"
proof -
  let ?g2 = "ensure_node (ensure_node g u) v"
  have base: "nb0 = [] \<or> (\<exists>a0. (n0, a0, nb0) \<in> set (entries g))"
    if "(n0, a0', nb0) \<in> set (entries ?g2)" for n0 a0' nb0
    using that entries_ensure_node [of "ensure_node g u" v] entries_ensure_node [of g u] by auto
  show ?thesis
  proof (cases "directed g")
    case True
    with assms have "(n, a, nb) \<in> set (entries (put_adj ?g2 u v
        ((case get_adj g u v of None \<Rightarrow> Map.empty | Some d \<Rightarrow> d) ++ attr)))"
      by (simp add: add_edge_put_adj Let_def)
    from entries_put_adj [OF this] obtain nb0 where
      "(n, a, nb0) \<in> set (entries ?g2)" "nb = nb0 \<or> nb = AList.update v
        ((case get_adj g u v of None \<Rightarrow> Map.empty | Some d \<Rightarrow> d) ++ attr) nb0" by blast
    with base [of n a nb0] show ?thesis by blast
  next
    case False
    let ?dd = "(case get_adj g u v of None \<Rightarrow> Map.empty | Some d \<Rightarrow> d) ++ attr"
    from False assms have "(n, a, nb) \<in> set (entries (put_adj (put_adj ?g2 u v ?dd) v u ?dd))"
      by (simp add: add_edge_put_adj Let_def)
    from entries_put_adj [OF this] obtain nb1 where
      1: "(n, a, nb1) \<in> set (entries (put_adj ?g2 u v ?dd))" "nb = nb1 \<or> nb = AList.update u ?dd nb1"
      by blast
    from entries_put_adj [OF 1(1)] obtain nb0 where
      0: "(n, a, nb0) \<in> set (entries ?g2)" "nb1 = nb0 \<or> nb1 = AList.update v ?dd nb0" by blast
    from base [OF 0(1)] 0(2) 1(2) show ?thesis by blast
  qed
qed

lemma wf_add_edge:
  assumes "wf_graph g"
  shows "wf_graph (add_edge g u v attr)"
proof (rule wf_graphI)
  show "distinct (node_ids (add_edge g u v attr))"
    using wf_graphD(1) [OF assms] by (simp add: node_ids_add_edge node_ids_ensure_node)
next
  fix n a nb assume "(n, a, nb) \<in> set (entries (add_edge g u v attr))"
  from entries_add_edge [OF this] show "distinct (map fst nb)"
    using wf_graphD(2) [OF assms] by (auto simp: distinct_update)
next
  fix x y d assume a: "get_adj (add_edge g u v attr) x y = Some d"
  show "y \<in> set (node_ids (add_edge g u v attr))"
  proof (cases rule: edge_position [where x = x and y = y and u = u and v = v and g = g])
    case same then show ?thesis by (simp add: set_node_ids_add_edge)
  next
    case rev then show ?thesis by (simp add: set_node_ids_add_edge)
  next
    case other
    from a have "get_adj g x y = Some d" by (simp only: get_adj_add_edge_other [OF other])
    from get_adj_nodes(2) [OF assms this] show ?thesis by (simp add: set_node_ids_add_edge)
  qed
next
  fix x y d
  assume nd: "\<not> directed (add_edge g u v attr)" and a: "get_adj (add_edge g u v attr) x y = Some d"
  from nd have ndg: "\<not> directed g" by simp
  show "get_adj (add_edge g u v attr) y x = Some d"
  proof (cases rule: edge_position [where x = x and y = y and u = u and v = v and g = g])
    case same
    with a have "d = edge_dict g u v attr" by (simp add: get_adj_add_edge_same)
    with same ndg show ?thesis by (simp add: get_adj_add_edge_rev)
  next
    case rev
    with a have "d = edge_dict g u v attr" by (simp add: get_adj_add_edge_rev)
    with rev show ?thesis by (simp add: get_adj_add_edge_same)
  next
    case other
    from a have 1: "get_adj g x y = Some d" by (simp only: get_adj_add_edge_other [OF other])
    from other ndg have o: "\<not> (y = u \<and> x = v)" "directed g \<or> \<not> (y = v \<and> x = u)" by blast+
    from 1 get_adj_sym [OF assms ndg, of x y] have "get_adj g y x = Some d" by simp
    then show ?thesis by (simp only: get_adj_add_edge_other [OF o])
  qed
qed

section \<open>Facts about bulk insertion\<close>

lemma add_edges_from_Nil [simp]: "add_edges_from g [] = g"
  by (simp add: add_edges_from_def)

lemma add_edges_from_Cons [simp]:
  "add_edges_from g ((u, v, d) # es) = add_edges_from (add_edge g u v d) es"
  by (simp add: add_edges_from_def)

lemma add_nodes_from_Nil [simp]: "add_nodes_from g [] = g"
  by (simp add: add_nodes_from_def)

lemma add_nodes_from_Cons [simp]:
  "add_nodes_from g ((n, a) # ns) = add_nodes_from (add_node g n a) ns"
  by (simp add: add_nodes_from_def)

lemma wf_add_edges_from: "wf_graph g \<Longrightarrow> wf_graph (add_edges_from g es)"
proof (induction es arbitrary: g)
  case Nil then show ?case by simp
next
  case (Cons e es)
  obtain u v d where e: "e = (u, v, d)" by (cases e)
  from Cons.prems have "wf_graph (add_edge g u v d)" by (rule wf_add_edge)
  then have "wf_graph (add_edges_from (add_edge g u v d) es)" by (rule Cons.IH)
  then show ?case unfolding e by (simp only: add_edges_from_Cons)
qed

lemma wf_add_nodes_from: "wf_graph g \<Longrightarrow> wf_graph (add_nodes_from g ns)"
proof (induction ns arbitrary: g)
  case Nil then show ?case by simp
next
  case (Cons p ns)
  obtain n a where p: "p = (n, a)" by (cases p)
  from Cons.prems have "wf_graph (add_node g n a)" by (rule wf_add_node)
  then have "wf_graph (add_nodes_from (add_node g n a) ns)" by (rule Cons.IH)
  then show ?case unfolding p by (simp only: add_nodes_from_Cons)
qed

lemma directed_add_edges_from [simp]: "directed (add_edges_from g es) = directed g"
proof (induction es arbitrary: g)
  case Nil then show ?case by simp
next
  case (Cons e es)
  obtain u v d where e: "e = (u, v, d)" by (cases e)
  show ?case unfolding e by (simp only: add_edges_from_Cons Cons.IH directed_add_edge)
qed

lemma directed_add_nodes_from [simp]: "directed (add_nodes_from g ns) = directed g"
proof (induction ns arbitrary: g)
  case Nil then show ?case by simp
next
  case (Cons p ns)
  obtain n a where p: "p = (n, a)" by (cases p)
  show ?case unfolding p by (simp only: add_nodes_from_Cons Cons.IH directed_add_node)
qed

lemma endpoints_simps [simp]:
  "endpoints [] = {}"
  "endpoints ((u, v, d) # es) = insert u (insert v (endpoints es))"
  by (auto simp: endpoints_def)

lemma set_node_ids_add_edges_from:
  "set (node_ids (add_edges_from g es)) = set (node_ids g) \<union> endpoints es"
proof (induction es arbitrary: g)
  case Nil then show ?case by simp
next
  case (Cons e es)
  obtain u v d where e: "e = (u, v, d)" by (cases e)
  have "set (node_ids (add_edges_from g (e # es))) = insert u (insert v (set (node_ids g))) \<union> endpoints es"
    unfolding e by (simp only: add_edges_from_Cons Cons.IH set_node_ids_add_edge)
  also have "\<dots> = set (node_ids g) \<union> endpoints (e # es)"
    unfolding e endpoints_simps by blast
  finally show ?case .
qed

lemma node_ids_add_edge_same:
  "u \<in> set (node_ids g) \<Longrightarrow> v \<in> set (node_ids g) \<Longrightarrow> node_ids (add_edge g u v d) = node_ids g"
  by (simp add: node_ids_add_edge node_ids_ensure_node)

lemma node_ids_add_edges_from_same:
  "endpoints es \<subseteq> set (node_ids g) \<Longrightarrow> node_ids (add_edges_from g es) = node_ids g"
proof (induction es arbitrary: g)
  case Nil then show ?case by simp
next
  case (Cons e es)
  obtain u v d where e: "e = (u, v, d)" by (cases e)
  from Cons.prems have uv: "u \<in> set (node_ids g)" "v \<in> set (node_ids g)"
    and r: "endpoints es \<subseteq> set (node_ids g)"
    unfolding e endpoints_simps by blast+
  have s: "node_ids (add_edge g u v d) = node_ids g" using uv by (rule node_ids_add_edge_same)
  from r have "endpoints es \<subseteq> set (node_ids (add_edge g u v d))" by (simp only: s)
  from Cons.IH [OF this] show ?case unfolding e by (simp only: add_edges_from_Cons s)
qed

lemma get_node_ensure_same:
  "n \<in> set (node_ids g) \<Longrightarrow> get_node (ensure_node g m) n = get_node g n"
  by (auto simp: get_node_ensure_node)

lemma get_node_add_edge_same:
  assumes "n \<in> set (node_ids g)"
  shows "get_node (add_edge g u v d) n = get_node g n"
proof -
  have "n \<in> set (node_ids (ensure_node g u))" using assms by (simp add: in_node_ids_ensure)
  then have "get_node (ensure_node (ensure_node g u) v) n = get_node (ensure_node g u) n"
    by (rule get_node_ensure_same)
  also have "\<dots> = get_node g n" using assms by (rule get_node_ensure_same)
  finally show ?thesis by (simp only: get_node_add_edge)
qed

lemma get_node_add_edges_from:
  "n \<in> set (node_ids g) \<Longrightarrow> get_node (add_edges_from g es) n = get_node g n"
proof (induction es arbitrary: g)
  case Nil then show ?case by simp
next
  case (Cons e es)
  obtain u v d where e: "e = (u, v, d)" by (cases e)
  have "n \<in> set (node_ids (add_edge g u v d))" using Cons.prems by (simp add: set_node_ids_add_edge)
  from Cons.IH [OF this] show ?case using Cons.prems by (simp add: e get_node_add_edge_same)
qed

lemma get_adj_add_edge_dom:
  "get_adj (add_edge g u v attr) x y \<noteq> None \<longleftrightarrow>
     get_adj g x y \<noteq> None \<or> (x = u \<and> y = v) \<or> (\<not> directed g \<and> x = v \<and> y = u)"
proof (cases rule: edge_position [where x = x and y = y and u = u and v = v and g = g])
  case same
  have "get_adj (add_edge g u v attr) x y = Some (edge_dict g u v attr)"
    unfolding same by (rule get_adj_add_edge_same)
  then have "get_adj (add_edge g u v attr) x y \<noteq> None" by simp
  with same show ?thesis by blast
next
  case rev
  have "get_adj (add_edge g u v attr) x y = Some (edge_dict g u v attr)"
    unfolding rev(2,3) by (rule get_adj_add_edge_rev [OF rev(1)])
  then have "get_adj (add_edge g u v attr) x y \<noteq> None" by simp
  with rev show ?thesis by blast
next
  case other
  have eq: "get_adj (add_edge g u v attr) x y = get_adj g x y" by (rule get_adj_add_edge_other [OF other])
  have r: "((x = u \<and> y = v) \<or> (\<not> directed g \<and> x = v \<and> y = u)) = False" using other by blast
  show ?thesis unfolding eq r by simp
qed

lemma get_adj_add_edges_from_dom:
  "get_adj (add_edges_from g es) x y \<noteq> None \<longleftrightarrow>
     get_adj g x y \<noteq> None \<or> (\<exists>d. (x, y, d) \<in> set es) \<or> (\<not> directed g \<and> (\<exists>d. (y, x, d) \<in> set es))"
proof (induction es arbitrary: g)
  case Nil then show ?case by simp
next
  case (Cons e es)
  obtain u v d where e: "e = (u, v, d)" by (cases e)
  have "get_adj (add_edges_from g (e # es)) x y \<noteq> None \<longleftrightarrow>
      get_adj (add_edge g u v d) x y \<noteq> None \<or> (\<exists>d. (x, y, d) \<in> set es)
        \<or> (\<not> directed g \<and> (\<exists>d. (y, x, d) \<in> set es))"
    using Cons.IH [of "add_edge g u v d"] by (simp add: e)
  also have "\<dots> \<longleftrightarrow> (get_adj g x y \<noteq> None \<or> (x = u \<and> y = v) \<or> (\<not> directed g \<and> x = v \<and> y = u))
        \<or> (\<exists>d. (x, y, d) \<in> set es) \<or> (\<not> directed g \<and> (\<exists>d. (y, x, d) \<in> set es))"
    by (simp only: get_adj_add_edge_dom)
  also have "\<dots> \<longleftrightarrow> get_adj g x y \<noteq> None \<or> (\<exists>d. (x, y, d) \<in> set (e # es))
        \<or> (\<not> directed g \<and> (\<exists>d. (y, x, d) \<in> set (e # es)))"
    unfolding e by (simp only: set_simps insert_iff prod.inject) blast
  finally show ?case .
qed

lemma edge_dict_consistent:
  assumes "get_adj g u v = None \<or> get_adj g u v = Some d"
  shows "edge_dict g u v d = d"
  using assms by (auto simp: edge_dict_def map_add_def fun_eq_iff split: option.splits)

lemma get_adj_add_edge_sub:
  assumes sub: "\<And>x y d. get_adj g x y = Some d \<Longrightarrow> T x y = Some d"
    and t: "T u v = Some d" "\<not> directed g \<Longrightarrow> T v u = Some d"
    and a: "get_adj (add_edge g u v d) x y = Some d'"
  shows "T x y = Some d'"
proof -
  have "get_adj g u v = None \<or> get_adj g u v = Some d"
    using sub [of u v] t(1) by (cases "get_adj g u v") auto
  then have ed: "edge_dict g u v d = d" by (rule edge_dict_consistent)
  show ?thesis
  proof (cases rule: edge_position [where x = x and y = y and u = u and v = v and g = g])
    case same
    with a ed t(1) show ?thesis by (simp add: get_adj_add_edge_same)
  next
    case rev
    with a ed t(2) show ?thesis by (simp add: get_adj_add_edge_rev)
  next
    case other
    from a have "get_adj g x y = Some d'" by (simp only: get_adj_add_edge_other [OF other])
    then show ?thesis by (rule sub)
  qed
qed

lemma get_adj_add_edges_from_sub:
  assumes "\<And>x y d. get_adj g x y = Some d \<Longrightarrow> T x y = Some d"
    and "\<And>u v d. (u, v, d) \<in> set es \<Longrightarrow> T u v = Some d \<and> (\<not> directed g \<longrightarrow> T v u = Some d)"
    and "get_adj (add_edges_from g es) x y = Some d'"
  shows "T x y = Some d'"
  using assms
proof (induction es arbitrary: g)
  case Nil then show ?case by simp
next
  case (Cons e es)
  obtain u v d where e: "e = (u, v, d)" by (cases e)
  have t: "T u v = Some d" "\<not> directed g \<Longrightarrow> T v u = Some d"
    using Cons.prems(2) [of u v d] by (simp_all add: e)
  show ?case
  proof (rule Cons.IH [of "add_edge g u v d"])
    fix x y d' assume "get_adj (add_edge g u v d) x y = Some d'"
    then show "T x y = Some d'"
      using Cons.prems(1) t
      by (rule get_adj_add_edge_sub [where g = g and T = T and u = u and v = v and d = d, rotated 3])
  next
    fix u' v' d' assume "(u', v', d') \<in> set es"
    then show "T u' v' = Some d' \<and> (\<not> directed (add_edge g u v d) \<longrightarrow> T v' u' = Some d')"
      using Cons.prems(2) [of u' v' d'] by simp
  next
    show "get_adj (add_edges_from (add_edge g u v d) es) x y = Some d'"
      using Cons.prems(3) by (simp add: e)
  qed
qed

lemma get_adj_add_nodes_from [simp]: "get_adj (add_nodes_from g ns) x y = get_adj g x y"
proof (induction ns arbitrary: g)
  case Nil then show ?case by simp
next
  case (Cons p ns)
  obtain n a where p: "p = (n, a)" by (cases p)
  show ?case unfolding p by (simp only: add_nodes_from_Cons Cons.IH get_adj_add_node)
qed

lemma set_node_ids_add_node: "set (node_ids (add_node g n a)) = insert n (set (node_ids g))"
  by (auto simp: node_ids_add_node in_node_ids_ensure)

lemma set_node_ids_add_nodes_from:
  "set (node_ids (add_nodes_from g ns)) = set (node_ids g) \<union> fst ` set ns"
proof (induction ns arbitrary: g)
  case Nil then show ?case by simp
next
  case (Cons p ns)
  obtain n a where p: "p = (n, a)" by (cases p)
  have "set (node_ids (add_nodes_from g (p # ns))) = insert n (set (node_ids g)) \<union> fst ` set ns"
    using Cons.IH [of "add_node g n a"] by (simp add: p set_node_ids_add_node)
  then show ?case by (simp add: p)
qed

lemma update_attrs_absent: "n \<notin> fst ` set es \<Longrightarrow> update_attrs n a es = es"
  by (induction es) (auto simp: update_attrs_def)

lemma add_node_new:
  "n \<notin> set (node_ids g) \<Longrightarrow> add_node g n a = g\<lparr>entries := entries g @ [(n, a, [])]\<rparr>"
proof -
  assume n: "n \<notin> set (node_ids g)"
  then have "update_attrs n a (entries g) = entries g"
    unfolding node_ids_def by (simp add: update_attrs_absent)
  with n show ?thesis by (simp add: add_node_def ensure_node_def update_attrs_def Let_def)
qed

lemma add_nodes_from_new:
  "distinct (map fst ns) \<Longrightarrow> set (map fst ns) \<inter> set (node_ids g) = {} \<Longrightarrow>
     add_nodes_from g ns = g\<lparr>entries := entries g @ map (\<lambda>(n, a). (n, a, [])) ns\<rparr>"
proof (induction ns arbitrary: g)
  case Nil then show ?case by simp
next
  case (Cons p ns)
  obtain n a where p: "p = (n, a)" by (cases p)
  have n: "n \<notin> set (node_ids g)" using Cons.prems(2) by (simp add: p)
  let ?g = "g\<lparr>entries := entries g @ [(n, a, [])]\<rparr>"
  have "set (map fst ns) \<inter> set (node_ids ?g) = {}"
    using Cons.prems by (auto simp: p node_ids_def)
  from Cons.IH [OF _ this] Cons.prems(1) show ?case
    by (simp add: p add_node_new [OF n])
qed

section \<open>Facts about the stabilized edge list, and evaluation of the examples\<close>

lemma stabilized_edges_alt:
  "stabilized_edges graph =
     sort_key edge_key (if directed graph then edges_data graph else map sort_source_target (edges_data graph))"
  by (simp add: stabilized_edges_def edge_key_def [abs_def] Let_def)

lemma sort_source_target_le: "fst (sort_source_target e) \<le> fst (snd (sort_source_target e))"
  by (cases e) (auto simp: sort_source_target_def)

lemmas graph_eval =
  add_edge_def add_node_def ensure_node_def node_ids_def
  nodes_data_def empty_graph_def get_adj_def neighbours_def set_adj_def update_attrs_def
  set_node_attrs_def add_nodes_from_def add_edges_from_def edges_data_def Let_def

lemmas canon_eval =
  stable_largest_connected_component_def largest_connected_component_def connected_components_def
  plain_bfs_def nbrs_of_def preds_def py_max_len_def induced_subgraph_def subgraph_nodes_def get_node_def relabel_nodes_def
  stabilize_graph_def stabilized_edges_def sort_source_target_def

lemma ascii_labels:
  "node_mapping ascii_str ''a'' = ''A''" "node_mapping ascii_str ''b'' = ''B''"
  "node_mapping ascii_str ''c'' = ''C''" "node_mapping ascii_str ''d'' = ''D''"
  "node_mapping ascii_str ''A'' = ''A''" "node_mapping ascii_str ''B'' = ''B''"
  "node_mapping ascii_str ''C'' = ''C''" "node_mapping ascii_str ''D'' = ''D''"
  "node_mapping ascii_str ''&#97;'' = ''a''"
  "ascii_strip (ascii_upper (ascii_unescape ''&#97;'')) = ''A''"
  by code_simp+

lemma edge_keys:
  "get_edge_key ''A'' ''B'' = ''A -> B''" "get_edge_key ''C'' ''A'' = ''C -> A''"
  "get_edge_key ''C'' ''D'' = ''C -> D''"
  by code_simp+

lemma edge_ba_graph_entries:
  "edge_ba_graph = \<lparr>directed = False, entries =
     [(''b'', Map.empty, [(''a'', Map.empty)]), (''a'', Map.empty, [(''b'', Map.empty)])]\<rparr>"
  by (simp add: edge_ba_graph_def graph_eval)

lemma arc_ca_graph_entries:
  "arc_ca_graph = \<lparr>directed = True, entries =
     [(''c'', Map.empty, [(''a'', Map.empty)]), (''a'', Map.empty, [])]\<rparr>"
  by (simp add: arc_ca_graph_def graph_eval)

lemma canon_edge_ba:
  "stable_largest_connected_component ascii_str edge_ba_graph = Inr \<lparr>directed = False, entries =
     [(''A'', Map.empty, [(''B'', Map.empty)]), (''B'', Map.empty, [(''A'', Map.empty)])]\<rparr>"
  by (simp add: edge_ba_graph_entries canon_eval graph_eval ascii_labels edge_keys)

lemma canon_arc_ca:
  "stable_largest_connected_component ascii_str arc_ca_graph = Inr \<lparr>directed = True, entries =
     [(''A'', Map.empty, []), (''C'', Map.empty, [(''A'', Map.empty)])]\<rparr>"
  by (simp add: arc_ca_graph_entries canon_eval graph_eval ascii_labels edge_keys)

section \<open>Facts about induced subgraphs\<close>

lemma map_of_skeleton: "map_of (skeleton es) n = map_option snd (map_of es n)"
  by (induction es) (auto simp: skeleton_def)

lemma neighbours_skeleton:
  "neighbours g n = (case map_of (skeleton (entries g)) n of None \<Rightarrow> [] | Some nb \<Rightarrow> nb)"
  by (cases "map_of (entries g) n") (auto simp: neighbours_def map_of_skeleton)

lemma node_ids_skeleton: "node_ids g = map fst (skeleton (entries g))"
  by (simp add: node_ids_def skeleton_def comp_def case_prod_unfold)

lemma same_skeleton:
  assumes "skeleton (entries g') = skeleton (entries g)"
  shows "node_ids g' = node_ids g" "neighbours g' n = neighbours g n" "get_adj g' x y = get_adj g x y"
  using assms by (simp_all add: node_ids_skeleton neighbours_skeleton get_adj_def)

lemma wf_graph_skeleton:
  "wf_graph g \<longleftrightarrow>
     distinct (map fst (skeleton (entries g)))
     \<and> list_all (\<lambda>(n, nb). distinct (map fst nb)
          \<and> list_all (\<lambda>(m, d). m \<in> set (node_ids g) \<and> (directed g \<or> get_adj g m n = Some d)) nb)
        (skeleton (entries g))"
  by (simp add: wf_graph_def node_ids_def skeleton_def list_all_iff case_prod_unfold comp_def)

lemma wf_same_skeleton:
  assumes "skeleton (entries g') = skeleton (entries g)" "directed g' = directed g" "wf_graph g"
  shows "wf_graph g'"
proof -
  have a: "get_adj g' = get_adj g" using same_skeleton(3) [OF assms(1)] by (simp add: fun_eq_iff)
  have n: "node_ids g' = node_ids g" by (rule same_skeleton(1) [OF assms(1)])
  from assms(3) show ?thesis
    unfolding wf_graph_skeleton [of g'] wf_graph_skeleton [of g] assms(1,2) a n .
qed

lemma skeleton_set_node_attrs [simp]: "skeleton (set_node_attrs n d es) = skeleton es"
  by (induction es) (auto simp: skeleton_def set_node_attrs_def)

lemma skeleton_fold_set_node_attrs [simp]:
  "skeleton (fold (\<lambda>(n, d). set_node_attrs (m n) d) nd es) = skeleton es"
proof (induction nd arbitrary: es)
  case Nil then show ?case by simp
next
  case (Cons p nd)
  obtain n d where p: "p = (n, d)" by (cases p)
  show ?case unfolding p by (simp add: Cons.IH)
qed

lemma directed_induced_subgraph [simp]: "directed (induced_subgraph pos g ns) = directed g"
  by (simp add: induced_subgraph_def Let_def empty_graph_def)

lemma wf_induced_subgraph: "wf_graph (induced_subgraph pos g ns)"
  unfolding induced_subgraph_def Let_def
  by (intro wf_add_edges_from wf_add_nodes_from wf_empty_graph)

lemma set_subgraph_nodes: "set (subgraph_nodes pos g ns) = set ns \<inter> set (node_ids g)"
  by (auto simp: subgraph_nodes_def)

lemma set_node_ids_induced_subgraph:
  assumes "wf_graph g"
  shows "set (node_ids (induced_subgraph pos g ns)) = set ns \<inter> set (node_ids g)"
proof -
  let ?walk = "subgraph_nodes pos g ns"
  let ?es = "[(u, v, dd). u \<leftarrow> ?walk, (v, dd) \<leftarrow> neighbours g u, v \<in> set ns]"
  have "endpoints ?es \<subseteq> set ns \<inter> set (node_ids g)"
  proof
    fix x assume "x \<in> endpoints ?es"
    then obtain u v dd where e: "u \<in> set ?walk" "(v, dd) \<in> set (neighbours g u)" "v \<in> set ns"
      and x: "x = u \<or> x = v"
      by (auto simp: endpoints_def)
    from e(2) have "v \<in> fst ` set (neighbours g u)" by force
    then have "get_adj g u v \<noteq> None"
      unfolding get_adj_def by (simp only: map_of_eq_None_iff not_not)
    then have "v \<in> set (node_ids g)" using get_adj_nodes(2) [OF assms] by blast
    with e(1,3) x show "x \<in> set ns \<inter> set (node_ids g)" by (auto simp: set_subgraph_nodes)
  qed
  moreover have "node_ids (empty_graph (directed g)) = []"
    by (simp add: node_ids_def empty_graph_def)
  then have "set (node_ids (induced_subgraph pos g ns)) = set ?walk \<union> endpoints ?es"
    unfolding induced_subgraph_def Let_def
    by (simp add: set_node_ids_add_edges_from set_node_ids_add_nodes_from image_image)
  ultimately show ?thesis by (auto simp: set_subgraph_nodes)
qed

lemma largest_connected_componentD:
  assumes "largest_connected_component pos g = Inr h"
  shows "\<exists>c cs. connected_components g = c # cs \<and> h = induced_subgraph pos g (py_max_len c cs)"
  using assms by (auto simp: largest_connected_component_def split: list.splits)

lemma wf_largest_connected_component:
  "wf_graph g \<Longrightarrow> largest_connected_component pos g = Inr h \<Longrightarrow> wf_graph h"
  by (auto dest!: largest_connected_componentD intro: wf_induced_subgraph)

lemma directed_largest_connected_component:
  "largest_connected_component pos g = Inr h \<Longrightarrow> directed h = directed g"
  by (auto dest!: largest_connected_componentD)

section \<open>Facts about edges, relabelling and the stabilized node order\<close>

lemma in_undirected_edges:
  "(n, m, d) \<in> set (undirected_edges seen es) \<Longrightarrow>
     \<exists>a nb. (n, a, nb) \<in> set es \<and> (m, d) \<in> set nb"
proof (induction es arbitrary: seen)
  case Nil then show ?case by simp
next
  case (Cons e es)
  obtain n0 a0 nb0 where e: "e = (n0, a0, nb0)" by (cases e)
  from Cons.prems consider
    (here) "n = n0" "(m, d) \<in> set nb0" | (later) "(n, m, d) \<in> set (undirected_edges (n0 # seen) es)"
    unfolding e by auto
  then show ?case
  proof cases
    case here then show ?thesis unfolding e by auto
  next
    case later
    from Cons.IH [OF this] show ?thesis by auto
  qed
qed

lemma in_edges_data:
  assumes "(n, m, d) \<in> set (edges_data g)"
  shows "\<exists>a nb. (n, a, nb) \<in> set (entries g) \<and> (m, d) \<in> set nb"
proof (cases "directed g")
  case True
  with assms show ?thesis by (auto simp: edges_data_def)
next
  case False
  with assms show ?thesis by (auto simp: edges_data_def dest: in_undirected_edges)
qed

lemma edges_data_get_adj:
  assumes "wf_graph g" "(n, m, d) \<in> set (edges_data g)"
  shows "get_adj g n m = Some d"
proof -
  from in_edges_data [OF assms(2)] obtain a nb where
    e: "(n, a, nb) \<in> set (entries g)" "(m, d) \<in> set nb" by blast
  from wf_graphD(2) [OF assms(1) e(1)] e(2) have "map_of nb m = Some d" by simp
  then show ?thesis by (simp add: get_adj_entry [OF assms(1) e(1)])
qed

lemma endpoints_edges_data:
  assumes "wf_graph g"
  shows "endpoints (edges_data g) \<subseteq> set (node_ids g)"
proof
  fix x assume "x \<in> endpoints (edges_data g)"
  then obtain n m d where e: "(n, m, d) \<in> set (edges_data g)" "x = n \<or> x = m"
    by (auto simp: endpoints_def)
  from edges_data_get_adj [OF assms e(1)] get_adj_nodes [OF assms] e(2)
  show "x \<in> set (node_ids g)" by blast
qed

lemma endpoints_map:
  "endpoints (map (\<lambda>(n1, n2, d). (f n1, f n2, d)) es) = f ` endpoints es"
proof (induction es)
  case Nil then show ?case by simp
next
  case (Cons e es)
  obtain u v d where e: "e = (u, v, d)" by (cases e)
  show ?case unfolding e by (simp add: Cons.IH)
qed

lemma endpoints_sort_source_target:
  "endpoints (map sort_source_target es) = endpoints es"
proof (induction es)
  case Nil then show ?case by simp
next
  case (Cons e es)
  obtain u v d where e: "e = (u, v, d)" by (cases e)
  have "sort_source_target (u, v, d) = (u, v, d) \<or> sort_source_target (u, v, d) = (v, u, d)"
    by (simp add: sort_source_target_def)
  then show ?case
  proof
    assume "sort_source_target (u, v, d) = (u, v, d)"
    then show ?thesis unfolding e by (simp add: Cons.IH)
  next
    assume "sort_source_target (u, v, d) = (v, u, d)"
    then show ?thesis unfolding e by (simp add: Cons.IH insert_commute)
  qed
qed

lemma endpoints_sort_key [simp]: "endpoints (sort_key f es) = endpoints es"
  by (simp add: endpoints_def)

lemma endpoints_stabilized_edges:
  "endpoints (stabilized_edges g) = endpoints (edges_data g)"
  by (simp add: stabilized_edges_alt endpoints_sort_source_target)

lemma relabel_nodes_base:
  "relabel_nodes G m =
     add_edges_from (relabel_base G m) (map (\<lambda>(n1, n2, d). (m n1, m n2, d)) (edges_data G))"
  by (simp add: relabel_nodes_def relabel_base_def Let_def)

lemma relabel_base_facts:
  "wf_graph (relabel_base G m)"
  "directed (relabel_base G m) = directed G"
  "set (node_ids (relabel_base G m)) = m ` set (node_ids G)"
  "get_adj (relabel_base G m) x y = None"
proof -
  let ?H1 = "add_nodes_from (empty_graph (directed G)) (map (\<lambda>n. (m n, Map.empty)) (node_ids G))"
  let ?H2 = "?H1\<lparr>entries := fold (\<lambda>(n, d). set_node_attrs (m n) d) (nodes_data G) (entries ?H1)\<rparr>"
  have e: "relabel_base G m = ?H2" by (simp add: relabel_base_def Let_def)
  have sk: "skeleton (entries ?H2) = skeleton (entries ?H1)" by simp
  have d: "directed ?H2 = directed ?H1" by simp
  have w1: "wf_graph ?H1" by (intro wf_add_nodes_from wf_empty_graph)
  show "wf_graph (relabel_base G m)" unfolding e by (rule wf_same_skeleton [OF sk d w1])
  show "directed (relabel_base G m) = directed G" unfolding e by (simp add: empty_graph_def)
  have "set (node_ids ?H1) = set (node_ids (empty_graph (directed G)))
      \<union> fst ` set (map (\<lambda>n. (m n, Map.empty :: attrs)) (node_ids G))"
    by (rule set_node_ids_add_nodes_from)
  also have "\<dots> = m ` set (node_ids G)"
    by (simp add: empty_graph_def node_ids_def image_image)
  finally have "set (node_ids ?H1) = m ` set (node_ids G)" .
  then show "set (node_ids (relabel_base G m)) = m ` set (node_ids G)"
    unfolding e same_skeleton(1) [OF sk] .
  have "get_adj (empty_graph (directed G)) x y = None"
    by (simp add: get_adj_def neighbours_def empty_graph_def)
  then have "get_adj ?H1 x y = None" by (simp only: get_adj_add_nodes_from)
  then show "get_adj (relabel_base G m) x y = None"
    unfolding e same_skeleton(3) [OF sk] .
qed

lemma wf_relabel_nodes: "wf_graph (relabel_nodes G m)"
  unfolding relabel_nodes_base by (intro wf_add_edges_from relabel_base_facts(1))

lemma directed_relabel_nodes [simp]: "directed (relabel_nodes G m) = directed G"
  unfolding relabel_nodes_base by (simp add: relabel_base_facts(2))

lemma set_node_ids_relabel_nodes:
  assumes "wf_graph G"
  shows "set (node_ids (relabel_nodes G m)) = m ` set (node_ids G)"
proof -
  have "set (node_ids (relabel_nodes G m)) = m ` set (node_ids G) \<union> m ` endpoints (edges_data G)"
    unfolding relabel_nodes_base
    by (simp only: set_node_ids_add_edges_from relabel_base_facts(3) endpoints_map)
  with endpoints_edges_data [OF assms] show ?thesis by blast
qed

lemma map_fst_nodes_data [simp]: "map fst (nodes_data g) = node_ids g"
  by (simp add: nodes_data_def node_ids_def case_prod_unfold comp_def)

lemma map_fst_sort_key_distinct:
  assumes "distinct (map fst xs)"
  shows "map fst (sort_key fst xs) = sort (map fst xs)"
proof (rule sorted_distinct_set_unique)
  show "sorted (map fst (sort_key fst xs))" by (rule sorted_sort_key)
  have "mset (map fst (sort_key fst xs)) = mset (map fst xs)" by simp
  with assms show "distinct (map fst (sort_key fst xs))"
    by (metis distinct_count_atmost_1 set_mset_mset)
  show "sorted (sort (map fst xs))" by simp
  show "distinct (sort (map fst xs))" using assms by simp
  show "set (map fst (sort_key fst xs)) = set (sort (map fst xs))" by simp
qed

lemma stabilize_graph_base:
  "stabilize_graph H = add_edges_from (sorted_base H) (stabilized_edges H)"
  by (simp add: stabilize_graph_def sorted_base_def Let_def)

lemma sorted_base_entries:
  assumes "wf_graph H"
  shows "sorted_base H = \<lparr>directed = directed H,
     entries = map (\<lambda>(n, a). (n, a, [])) (sort_key fst (nodes_data H))\<rparr>"
proof -
  have d: "distinct (map fst (nodes_data H))" using wf_graphD(1) [OF assms] by simp
  have "distinct (map fst (sort_key fst (nodes_data H)))"
    unfolding map_fst_sort_key_distinct [OF d] using d by simp
  from add_nodes_from_new [OF this, of "empty_graph (directed H)"]
  show ?thesis by (simp add: sorted_base_def empty_graph_def node_ids_def)
qed

lemma node_ids_sorted_base:
  assumes "wf_graph H"
  shows "node_ids (sorted_base H) = sort (node_ids H)"
proof -
  have d: "distinct (map fst (nodes_data H))" using wf_graphD(1) [OF assms] by simp
  have "node_ids (sorted_base H) = map fst (sort_key fst (nodes_data H))"
    unfolding sorted_base_entries [OF assms] by (simp add: node_ids_def comp_def case_prod_unfold)
  then show ?thesis using map_fst_sort_key_distinct [OF d] by simp
qed

lemma node_ids_stabilize_graph:
  assumes "wf_graph H"
  shows "node_ids (stabilize_graph H) = sort (node_ids H)"
proof -
  have "endpoints (stabilized_edges H) \<subseteq> set (node_ids (sorted_base H))"
    using endpoints_edges_data [OF assms]
    by (simp add: endpoints_stabilized_edges node_ids_sorted_base [OF assms])
  from node_ids_add_edges_from_same [OF this] show ?thesis
    unfolding stabilize_graph_base by (simp add: node_ids_sorted_base [OF assms])
qed

section \<open>Facts about the order of adjacency and of the edges\<close>

lemma keys_update: "map fst (AList.update k v al) = ins k (map fst al)"
  by (simp add: ins_def update_keys)

lemma set_ins [simp]: "set (ins k ks) = insert k (set ks)"
  by (auto simp: ins_def)

lemma ins_idem: "ins k (ins k ks) = ins k ks"
  by (simp add: ins_def)

lemma filter_ins: "filter P (ins v ks) = (if P v then ins v (filter P ks) else filter P ks)"
  by (auto simp: ins_def)

lemma sorted_ins:
  fixes v :: "'a :: linorder"
  assumes "sorted_wrt (<) ks" "\<forall>t\<in>set ks. t \<le> v"
  shows "sorted_wrt (<) (ins v ks)"
proof (cases "v \<in> set ks")
  case True
  then show ?thesis using assms(1) by (simp add: ins_def)
next
  case False
  with assms(2) have "\<forall>t\<in>set ks. t < v" by (metis order_le_imp_less_or_eq)
  with False assms(1) show ?thesis by (simp add: ins_def sorted_wrt_append)
qed

lemma append_le_cancel: "(xs @ ys \<le> xs @ zs) = (ys \<le> zs)" for xs :: string
  by (induction xs) simp_all

lemma key_le: "get_edge_key u t \<le> get_edge_key u v \<longleftrightarrow> t \<le> v"
  unfolding get_edge_key_def by (simp only: append_le_cancel)

lemma adj_keys_put_adj:
  "adj_keys (put_adj g u v dd) x =
     (if x = u \<and> u \<in> set (node_ids g) then ins v (adj_keys g u) else adj_keys g x)"
  by (simp add: adj_keys_def neighbours_put_adj keys_update)

lemma adj_keys_ensure_node [simp]: "adj_keys (ensure_node g n) x = adj_keys g x"
  by (simp add: adj_keys_def)

lemma adj_keys_add_edge_directed:
  assumes "directed g"
  shows "adj_keys (add_edge g u v attr) x = (if x = u then ins v (adj_keys g x) else adj_keys g x)"
proof -
  let ?g2 = "ensure_node (ensure_node g u) v"
  have u: "u \<in> set (node_ids ?g2)" by (simp add: in_node_ids_ensure)
  have "add_edge g u v attr = put_adj ?g2 u v (edge_dict g u v attr)"
    using assms by (simp add: add_edge_cases)
  then show ?thesis using u by (simp add: adj_keys_put_adj)
qed

lemma adj_keys_add_edge_undirected:
  assumes "\<not> directed g"
  shows "adj_keys (add_edge g u v attr) x =
     (if x = v then ins u (if v = u then ins v (adj_keys g u) else adj_keys g v)
      else if x = u then ins v (adj_keys g u) else adj_keys g x)"
proof -
  let ?g2 = "ensure_node (ensure_node g u) v"
  let ?g3 = "put_adj ?g2 u v (edge_dict g u v attr)"
  have u: "u \<in> set (node_ids ?g2)" and v: "v \<in> set (node_ids ?g3)"
    by (simp_all add: in_node_ids_ensure)
  have e: "add_edge g u v attr = put_adj ?g3 v u (edge_dict g u v attr)"
    using assms by (simp add: add_edge_cases)
  have k3: "adj_keys ?g3 y = (if y = u then ins v (adj_keys g u) else adj_keys g y)" for y
    using u by (simp add: adj_keys_put_adj)
  have "adj_keys (put_adj ?g3 v u (edge_dict g u v attr)) x
      = (if x = v then ins u (adj_keys ?g3 v) else adj_keys ?g3 x)"
    using v by (simp only: adj_keys_put_adj simp_thms)
  then show ?thesis unfolding e k3 .
qed

lemma fwd_keys_add_edge:
  assumes "directed g \<or> u \<le> v"
  shows "fwd_keys (add_edge g u v attr) x = (if x = u then ins v (fwd_keys g x) else fwd_keys g x)"
proof (cases "directed g")
  case True
  then show ?thesis
    by (simp add: fwd_keys_def adj_keys_add_edge_directed)
next
  case False
  with assms have uv: "u \<le> v" by simp
  note ak = adj_keys_add_edge_undirected [OF False]
  show ?thesis
  proof (cases "x = u")
    case xu: True
    show ?thesis
    proof (cases "v = u")
      case True
      have "adj_keys (add_edge g u v attr) x = ins u (adj_keys g u)"
        by (simp add: ak xu True ins_idem)
      then show ?thesis using False xu True by (simp add: fwd_keys_def filter_ins)
    next
      case vu: False
      then have "adj_keys (add_edge g u v attr) x = ins v (adj_keys g u)"
        by (simp add: ak xu)
      then show ?thesis using False xu uv by (simp add: fwd_keys_def filter_ins)
    qed
  next
    case xu: False
    show ?thesis
    proof (cases "x = v")
      case True
      with xu have vu: "v \<noteq> u" by blast
      have "adj_keys (add_edge g u v attr) x = ins u (adj_keys g v)"
        using vu by (simp add: ak True)
      moreover have "\<not> v \<le> u" using uv vu by simp
      ultimately show ?thesis using False xu True by (simp add: fwd_keys_def filter_ins)
    next
      case xv: False
      have "adj_keys (add_edge g u v attr) x = adj_keys g x"
        using xu xv by (simp add: ak)
      then show ?thesis using False xu by (simp add: fwd_keys_def)
    qed
  qed
qed

lemma fwd_keys_sorted_fold:
  assumes "sorted (map edge_key es)"
    and "\<forall>e\<in>set es. directed g \<or> fst e \<le> fst (snd e)"
    and "\<forall>n. sorted_wrt (<) (fwd_keys g n)"
    and "\<forall>n. \<forall>t\<in>set (fwd_keys g n). \<forall>e\<in>set es. get_edge_key n t \<le> edge_key e"
  shows "sorted_wrt (<) (fwd_keys (add_edges_from g es) n)"
  using assms
proof (induction es arbitrary: g)
  case Nil
  then show ?case by simp
next
  case (Cons e es)
  obtain u v d where e: "e = (u, v, d)" by (cases e)
  let ?g = "add_edge g u v d"
  have o: "directed g \<or> u \<le> v" using Cons.prems(2) by (auto simp: e)
  note fk = fwd_keys_add_edge [OF o, of d]
  have ke: "edge_key e = get_edge_key u v" by (simp add: e edge_key_def)
  have 1: "sorted (map edge_key es)" using Cons.prems(1) by simp
  have 2: "\<forall>e\<in>set es. directed ?g \<or> fst e \<le> fst (snd e)" using Cons.prems(2) by auto
  have 3: "\<forall>n. sorted_wrt (<) (fwd_keys ?g n)"
  proof
    fix n
    show "sorted_wrt (<) (fwd_keys ?g n)"
    proof (cases "n = u")
      case True
      have "\<forall>t\<in>set (fwd_keys g u). t \<le> v"
      proof
        fix t assume "t \<in> set (fwd_keys g u)"
        with Cons.prems(4) have "get_edge_key u t \<le> edge_key e" by simp
        then show "t \<le> v" unfolding ke by (simp only: key_le)
      qed
      with Cons.prems(3) have "sorted_wrt (<) (ins v (fwd_keys g u))" by (intro sorted_ins) simp_all
      then show ?thesis unfolding fk True by simp
    next
      case False
      then show ?thesis unfolding fk using Cons.prems(3) by simp
    qed
  qed
  have 4: "\<forall>n. \<forall>t\<in>set (fwd_keys ?g n). \<forall>e'\<in>set es. get_edge_key n t \<le> edge_key e'"
  proof (intro allI ballI)
    fix n t e' assume t: "t \<in> set (fwd_keys ?g n)" and e': "e' \<in> set es"
    from t consider (old) "t \<in> set (fwd_keys g n)" | (new) "n = u" "t = v"
      unfolding fk by (cases "n = u") auto
    then show "get_edge_key n t \<le> edge_key e'"
    proof cases
      case old
      with Cons.prems(4) e' show ?thesis by simp
    next
      case new
      from Cons.prems(1) e' have "edge_key e \<le> edge_key e'" by simp
      then show ?thesis unfolding new ke .
    qed
  qed
  from Cons.IH [OF 1 2 3 4] show ?case by (simp add: e)
qed

lemma row_filter:
  "[(n, nbr, dd). (nbr, dd) \<leftarrow> nbrs, P nbr] = map (\<lambda>(m, d). (n, m, d)) (filter (\<lambda>(m, d). P m) nbrs)"
  by (induction nbrs) auto

lemma row_all:
  "[(n, nbr, dd). (nbr, dd) \<leftarrow> nbrs] = map (\<lambda>(m, d). (n, m, d)) nbrs"
  by (induction nbrs) auto

lemma map_fst_filter_keys:
  "map fst (filter (\<lambda>(m, d). P m) nb) = filter P (map fst nb)"
  by (induction nb) auto

lemma row_sorted:
  assumes "sorted_wrt (<) (map fst nb)"
  shows "sorted_wrt edge_before (map (\<lambda>(m, d). (n, m, d)) nb)"
proof -
  have "sorted_wrt (\<lambda>x y. fst x < fst y) nb" using assms by (simp add: sorted_wrt_map)
  then have "sorted_wrt (\<lambda>x y. edge_before (case x of (m, d) \<Rightarrow> (n, m, d)) (case y of (m, d) \<Rightarrow> (n, m, d))) nb"
    by (rule sorted_wrt_mono_rel [rotated]) (auto simp: edge_before_def)
  then show ?thesis by (simp add: sorted_wrt_map)
qed

lemma directed_edges_sorted:
  assumes "sorted_wrt (<) (map fst es)"
    and "\<forall>(n, a, nb)\<in>set es. sorted_wrt (<) (map fst nb)"
  shows "sorted_wrt edge_before [(n, nbr, dd). (n, a, nbrs) \<leftarrow> es, (nbr, dd) \<leftarrow> nbrs]"
  using assms
proof (induction es)
  case Nil
  then show ?case by simp
next
  case (Cons e es)
  obtain n a nb where e: "e = (n, a, nb)" by (cases e)
  let ?A = "map (\<lambda>(m, d). (n, m, d)) nb"
  let ?B = "[(n, nbr, dd). (n, a, nbrs) \<leftarrow> es, (nbr, dd) \<leftarrow> nbrs]"
  have split: "[(n, nbr, dd). (n, a, nbrs) \<leftarrow> e # es, (nbr, dd) \<leftarrow> nbrs] = ?A @ ?B"
    unfolding e by (simp add: row_all [symmetric])
  have A: "sorted_wrt edge_before ?A" using Cons.prems(2) by (intro row_sorted) (simp add: e)
  have B: "sorted_wrt edge_before ?B" using Cons.prems by (intro Cons.IH) simp_all
  have lt: "\<forall>x\<in>set es. n < fst x" using Cons.prems(1) by (simp add: e)
  have AB: "\<forall>x\<in>set ?A. \<forall>y\<in>set ?B. edge_before x y"
  proof (intro ballI)
    fix x y assume "x \<in> set ?A" "y \<in> set ?B"
    then have "fst x = n" "fst y \<in> fst ` set es" by force+
    with lt show "edge_before x y" by (auto simp: edge_before_def)
  qed
  show ?case unfolding split sorted_wrt_append using A B AB by blast
qed

lemma undirected_edges_sorted:
  assumes "sorted_wrt (<) (map fst es)"
    and "\<forall>x\<in>set seen. \<forall>e\<in>set es. x < fst e"
    and "\<forall>(n, a, nb)\<in>set es. \<forall>(m, d)\<in>set nb. m \<in> set seen \<union> fst ` set es"
    and "\<forall>(n, a, nb)\<in>set es. sorted_wrt (<) [t \<leftarrow> map fst nb. n \<le> t]"
  shows "sorted_wrt edge_before (undirected_edges seen es)
     \<and> (\<forall>e\<in>set (undirected_edges seen es). fst e \<in> fst ` set es \<and> fst e \<le> fst (snd e))
     \<and> (\<forall>(n, a, nb)\<in>set es. \<forall>(m, d)\<in>set nb. n \<le> m \<longrightarrow> (n, m, d) \<in> set (undirected_edges seen es))"
  using assms
proof (induction es arbitrary: seen)
  case Nil
  then show ?case by simp
next
  case (Cons e es)
  obtain n a nb where e: "e = (n, a, nb)" by (cases e)
  let ?A = "map (\<lambda>(m, d). (n, m, d)) (filter (\<lambda>(m, d). n \<le> m) nb)"
  let ?B = "undirected_edges (n # seen) es"
  have lt: "\<forall>x\<in>set es. n < fst x" using Cons.prems(1) by (simp add: e)
  have keep: "m \<notin> set seen \<longleftrightarrow> n \<le> m" if "(m, d) \<in> set nb" for m d
  proof
    assume "m \<notin> set seen"
    moreover from Cons.prems(3) that have "m \<in> set seen \<union> fst ` set (e # es)" by (force simp: e)
    ultimately have "m = n \<or> m \<in> fst ` set es" by (auto simp: e)
    with lt show "n \<le> m" by auto
  next
    assume "n \<le> m"
    moreover have "x < n" if "x \<in> set seen" for x using Cons.prems(2) that by (simp add: e)
    ultimately show "m \<notin> set seen" by force
  qed
  have "filter (\<lambda>(m, d). m \<notin> set seen) nb = filter (\<lambda>(m, d). n \<le> m) nb"
  proof (rule filter_cong [OF refl])
    fix x assume x: "x \<in> set nb"
    obtain m d where md: "x = (m, d)" by (cases x)
    from keep [of m d] x show "(case x of (m, d) \<Rightarrow> m \<notin> set seen) = (case x of (m, d) \<Rightarrow> n \<le> m)"
      unfolding md by simp
  qed
  then have split: "undirected_edges seen (e # es) = ?A @ ?B"
    unfolding e by (simp add: row_filter)
  have "sorted_wrt (<) (map fst (filter (\<lambda>(m, d). n \<le> m) nb))"
    using Cons.prems(4) by (simp add: e map_fst_filter_keys)
  then have A: "sorted_wrt edge_before ?A" by (rule row_sorted)
  have 1: "sorted_wrt (<) (map fst es)" using Cons.prems(1) by simp
  have 2: "\<forall>x\<in>set (n # seen). \<forall>e\<in>set es. x < fst e" using Cons.prems(2) lt by simp
  have 3: "\<forall>(n', a, nb)\<in>set es. \<forall>(m, d)\<in>set nb. m \<in> set (n # seen) \<union> fst ` set es"
    using Cons.prems(3) by (fastforce simp: e)
  have 4: "\<forall>(n, a, nb)\<in>set es. sorted_wrt (<) [t \<leftarrow> map fst nb. n \<le> t]"
    using Cons.prems(4) by simp
  note IH = Cons.IH [OF 1 2 3 4]
  have AB: "\<forall>x\<in>set ?A. \<forall>y\<in>set ?B. edge_before x y"
  proof (intro ballI)
    fix x y assume "x \<in> set ?A" "y \<in> set ?B"
    then have "fst x = n" "fst y \<in> fst ` set es" using IH by force+
    with lt show "edge_before x y" by (auto simp: edge_before_def)
  qed
  have s: "sorted_wrt edge_before (undirected_edges seen (e # es))"
    unfolding split sorted_wrt_append using IH A AB by blast
  have m1: "\<forall>x\<in>set (undirected_edges seen (e # es)). fst x \<in> fst ` set (e # es) \<and> fst x \<le> fst (snd x)"
  proof
    fix x assume "x \<in> set (undirected_edges seen (e # es))"
    then consider "x \<in> set ?A" | "x \<in> set ?B" unfolding split by auto
    then show "fst x \<in> fst ` set (e # es) \<and> fst x \<le> fst (snd x)"
    proof cases
      case 1
      then show ?thesis by (auto simp: e)
    next
      case 2
      with IH show ?thesis by auto
    qed
  qed
  have m2: "\<forall>(n', a', nb')\<in>set (e # es). \<forall>(m, d)\<in>set nb'. n' \<le> m \<longrightarrow> (n', m, d) \<in> set (undirected_edges seen (e # es))"
  proof (intro ballI, clarify)
    fix n' a' nb' m d
    assume h: "(n', a', nb') \<in> set (e # es)" "(m, d) \<in> set nb'" "n' \<le> m"
    from h(1) consider "(n', a', nb') = (n, a, nb)" | "(n', a', nb') \<in> set es" by (auto simp: e)
    then show "(n', m, d) \<in> set (undirected_edges seen (e # es))"
    proof cases
      case 1
      with h(2,3) have "(n', m, d) \<in> set ?A" by force
      then show ?thesis unfolding split by simp
    next
      case 2
      with IH h(2,3) have "(n', m, d) \<in> set ?B" by blast
      then show ?thesis unfolding split by simp
    qed
  qed
  from s m1 m2 show ?case by blast
qed

lemma neighbours_add_nodes_from [simp]: "neighbours (add_nodes_from g ns) x = neighbours g x"
proof (induction ns arbitrary: g)
  case Nil then show ?case by simp
next
  case (Cons p ns)
  obtain n a where p: "p = (n, a)" by (cases p)
  show ?case unfolding p by (simp only: add_nodes_from_Cons Cons.IH neighbours_add_node)
qed

lemma neighbours_sorted_base [simp]: "neighbours (sorted_base H) n = []"
proof -
  have "neighbours (sorted_base H) n = neighbours (empty_graph (directed H)) n"
    unfolding sorted_base_def by (rule neighbours_add_nodes_from)
  then show ?thesis by (simp add: neighbours_def empty_graph_def)
qed

lemma fwd_keys_sorted_base: "fwd_keys (sorted_base H) n = []"
  by (simp add: fwd_keys_def adj_keys_def)

lemma wf_sorted_base: "wf_graph (sorted_base H)"
  unfolding sorted_base_def by (intro wf_add_nodes_from wf_empty_graph)

lemma directed_sorted_base [simp]: "directed (sorted_base H) = directed H"
  by (simp add: sorted_base_def empty_graph_def)

lemma get_adj_sorted_base [simp]: "get_adj (sorted_base H) x y = None"
  by (simp add: get_adj_def)

lemma wf_stabilize_graph: "wf_graph (stabilize_graph H)"
  unfolding stabilize_graph_base by (intro wf_add_edges_from wf_sorted_base)

lemma directed_stabilize_graph [simp]: "directed (stabilize_graph H) = directed H"
  by (simp add: stabilize_graph_base)

lemma sorted_stabilized_edges: "sorted (map edge_key (stabilized_edges H))"
  unfolding stabilized_edges_alt by (rule sorted_sort_key)

lemma stabilized_edges_oriented:
  "\<forall>e\<in>set (stabilized_edges H). directed H \<or> fst e \<le> fst (snd e)"
  by (auto simp: stabilized_edges_alt sort_source_target_le)

lemma fwd_keys_stabilize_graph: "sorted_wrt (<) (fwd_keys (stabilize_graph H) n)"
  unfolding stabilize_graph_base
proof (rule fwd_keys_sorted_fold)
  show "sorted (map edge_key (stabilized_edges H))" by (rule sorted_stabilized_edges)
  show "\<forall>e\<in>set (stabilized_edges H). directed (sorted_base H) \<or> fst e \<le> fst (snd e)"
    using stabilized_edges_oriented [of H] by simp
qed (simp_all add: fwd_keys_sorted_base)

lemma undirected_edges_complete:
  assumes "distinct (map fst es)"
    and "(n, a, nb) \<in> set es" "(m, d) \<in> set nb"
    and "(m, a', nb') \<in> set es" "(n, d) \<in> set nb'"
    and "n \<notin> set seen" "m \<notin> set seen"
  shows "(n, m, d) \<in> set (undirected_edges seen es) \<or> (m, n, d) \<in> set (undirected_edges seen es)"
  using assms
proof (induction es arbitrary: seen)
  case Nil
  then show ?case by simp
next
  case (Cons e es)
  obtain n0 a0 nb0 where e: "e = (n0, a0, nb0)" by (cases e)
  have nd: "n0 \<notin> fst ` set es" and d: "distinct (map fst es)" using Cons.prems(1) by (simp_all add: e)
  let ?A = "map (\<lambda>(m, d). (n0, m, d)) (filter (\<lambda>(m, d). m \<notin> set seen) nb0)"
  have split: "undirected_edges seen (e # es) = ?A @ undirected_edges (n0 # seen) es"
    unfolding e by (simp add: row_filter)
  show ?case
  proof (cases "n0 = n")
    case True
    with Cons.prems(2) nd have "nb = nb0" by (force simp: e)
    with Cons.prems(3,7) True have "(n, m, d) \<in> set ?A" by force
    then show ?thesis unfolding split by simp
  next
    case nn: False
    show ?thesis
    proof (cases "n0 = m")
      case True
      with Cons.prems(4) nd have "nb' = nb0" by (force simp: e)
      with Cons.prems(5,6) True have "(m, n, d) \<in> set ?A" by force
      then show ?thesis unfolding split by simp
    next
      case nm: False
      have 2: "(n, a, nb) \<in> set es" using Cons.prems(2) nn by (auto simp: e)
      have 4: "(m, a', nb') \<in> set es" using Cons.prems(4) nm by (auto simp: e)
      have 6: "n \<notin> set (n0 # seen)" using Cons.prems(6) nn by simp
      have 7: "m \<notin> set (n0 # seen)" using Cons.prems(7) nm by simp
      from Cons.IH [OF d 2 Cons.prems(3) 4 Cons.prems(5) 6 7]
      show ?thesis unfolding split by auto
    qed
  qed
qed

lemma edges_data_complete:
  assumes "wf_graph g" "get_adj g x y = Some d"
  shows "(x, y, d) \<in> set (edges_data g) \<or> (\<not> directed g \<and> (y, x, d) \<in> set (edges_data g))"
proof -
  from get_adj_SomeD [OF assms(2)] obtain a nb where
    e: "(x, a, nb) \<in> set (entries g)" "(y, d) \<in> set nb" by blast
  show ?thesis
  proof (cases "directed g")
    case True
    with e have "(x, y, d) \<in> set (edges_data g)" by (force simp: edges_data_def)
    then show ?thesis by simp
  next
    case False
    from assms(2) have "get_adj g y x = Some d" by (simp add: get_adj_sym [OF assms(1) False, of y x])
    from get_adj_SomeD [OF this] obtain a' nb' where
      e': "(y, a', nb') \<in> set (entries g)" "(x, d) \<in> set nb'" by blast
    have "distinct (map fst (entries g))" using wf_graphD(1) [OF assms(1)] by (simp add: node_ids_def)
    from undirected_edges_complete [OF this e e', of "[]"] False
    show ?thesis by (simp add: edges_data_def)
  qed
qed

lemma edges_data_sorted:
  assumes "wf_graph g" "sorted (node_ids g)" "\<forall>n. sorted_wrt (<) (fwd_keys g n)"
  shows "sorted_wrt edge_before (edges_data g)"
    and "(s, t, d) \<in> set (edges_data g) \<longleftrightarrow> get_adj g s t = Some d \<and> (directed g \<or> s \<le> t)"
proof -
  have ss: "sorted_wrt (<) (map fst (entries g))"
    using assms(2) wf_graphD(1) [OF assms(1)] by (simp add: node_ids_def strict_sorted_iff)
  have nb: "map fst nb = adj_keys g n" if "(n, a, nb) \<in> set (entries g)" for n a nb
    using neighbours_entry [OF assms(1) that] by (simp add: adj_keys_def)
  have "sorted_wrt edge_before (edges_data g)
    \<and> ((s, t, d) \<in> set (edges_data g) \<longleftrightarrow> get_adj g s t = Some d \<and> (directed g \<or> s \<le> t))"
  proof (cases "directed g")
    case True
    have "\<forall>(n, a, nb)\<in>set (entries g). sorted_wrt (<) (map fst nb)"
      using assms(3) nb True by (auto simp: fwd_keys_def)
    from directed_edges_sorted [OF ss this] have 1: "sorted_wrt edge_before (edges_data g)"
      using True by (simp add: edges_data_def)
    have 2: "(s, t, d) \<in> set (edges_data g) \<longleftrightarrow> get_adj g s t = Some d"
      using edges_data_get_adj [OF assms(1), of s t d] edges_data_complete [OF assms(1), of s t d] True
      by blast
    from 1 2 True show ?thesis by simp
  next
    case False
    have 3: "\<forall>(n, a, nb)\<in>set (entries g). \<forall>(m, d)\<in>set nb. m \<in> set [] \<union> fst ` set (entries g)"
      using wf_graphD(3) [OF assms(1)] by (auto simp: node_ids_def)
    have 4: "\<forall>(n, a, nb)\<in>set (entries g). sorted_wrt (<) [t \<leftarrow> map fst nb. n \<le> t]"
    proof (intro ballI, clarify)
      fix n a nb' assume "(n, a, nb') \<in> set (entries g)"
      from nb [OF this] assms(3) False show "sorted_wrt (<) [t \<leftarrow> map fst nb'. n \<le> t]"
        by (simp add: fwd_keys_def)
    qed
    from undirected_edges_sorted [OF ss _ 3 4]
    have u: "sorted_wrt edge_before (undirected_edges [] (entries g))"
      "\<forall>e\<in>set (undirected_edges [] (entries g)). fst e \<le> fst (snd e)"
      "\<forall>(n, a, nb)\<in>set (entries g). \<forall>(m, d)\<in>set nb. n \<le> m \<longrightarrow> (n, m, d) \<in> set (undirected_edges [] (entries g))"
      by simp_all
    have e: "edges_data g = undirected_edges [] (entries g)" using False by (simp add: edges_data_def)
    have "(s, t, d) \<in> set (edges_data g) \<longleftrightarrow> get_adj g s t = Some d \<and> s \<le> t"
    proof
      assume a: "(s, t, d) \<in> set (edges_data g)"
      with u(2) have "s \<le> t" unfolding e by force
      with edges_data_get_adj [OF assms(1) a] show "get_adj g s t = Some d \<and> s \<le> t" by simp
    next
      assume a: "get_adj g s t = Some d \<and> s \<le> t"
      from get_adj_SomeD [of g s t d] a obtain a' nb' where
        "(s, a', nb') \<in> set (entries g)" "(t, d) \<in> set nb'" by blast
      with u(3) a show "(s, t, d) \<in> set (edges_data g)" unfolding e by blast
    qed
    with u(1) e False show ?thesis by simp
  qed
  then show "sorted_wrt edge_before (edges_data g)"
    and "(s, t, d) \<in> set (edges_data g) \<longleftrightarrow> get_adj g s t = Some d \<and> (directed g \<or> s \<le> t)"
    by blast+
qed

lemma stabilized_edges_get_adj:
  assumes "wf_graph H" "(u, v, d) \<in> set (stabilized_edges H)"
  shows "get_adj H u v = Some d \<and> (\<not> directed H \<longrightarrow> get_adj H v u = Some d)"
proof (cases "directed H")
  case True
  with assms(2) have "(u, v, d) \<in> set (edges_data H)" by (simp add: stabilized_edges_alt)
  from edges_data_get_adj [OF assms(1) this] True show ?thesis by simp
next
  case False
  with assms(2) obtain e where e: "e \<in> set (edges_data H)" "(u, v, d) = sort_source_target e"
    by (auto simp: stabilized_edges_alt)
  obtain a b c where abc: "e = (a, b, c)" by (cases e)
  from edges_data_get_adj [OF assms(1)] e(1) have g: "get_adj H a b = Some c" by (simp add: abc)
  then have g': "get_adj H b a = Some c" by (simp add: get_adj_sym [OF assms(1) False, of b a])
  from e(2) have "(u, v, d) = (a, b, c) \<or> (u, v, d) = (b, a, c)"
    by (simp add: abc sort_source_target_def split: if_splits)
  with g g' show ?thesis by auto
qed

lemma get_adj_stabilize_graph:
  assumes "wf_graph H"
  shows "get_adj (stabilize_graph H) x y = get_adj H x y"
proof -
  have sub: "get_adj H x y = Some d'" if "get_adj (stabilize_graph H) x y = Some d'" for x y d'
  proof (rule get_adj_add_edges_from_sub [where g = "sorted_base H" and es = "stabilized_edges H"
        and T = "get_adj H"])
    show "get_adj (add_edges_from (sorted_base H) (stabilized_edges H)) x y = Some d'"
      using that by (simp add: stabilize_graph_base)
  next
    fix u v d assume "(u, v, d) \<in> set (stabilized_edges H)"
    from stabilized_edges_get_adj [OF assms this]
    show "get_adj H u v = Some d \<and> (\<not> directed (sorted_base H) \<longrightarrow> get_adj H v u = Some d)" by simp
  qed simp
  have dom: "get_adj (stabilize_graph H) x y \<noteq> None" if "get_adj H x y = Some d" for d
  proof -
    from edges_data_complete [OF assms that] consider
      (fwd) "(x, y, d) \<in> set (edges_data H)" | (bwd) "\<not> directed H" "(y, x, d) \<in> set (edges_data H)"
      by blast
    then have "(\<exists>d. (x, y, d) \<in> set (stabilized_edges H))
        \<or> (\<not> directed H \<and> (\<exists>d. (y, x, d) \<in> set (stabilized_edges H)))"
    proof cases
      case fwd
      show ?thesis
      proof (cases "directed H")
        case True
        with fwd show ?thesis by (auto simp: stabilized_edges_alt)
      next
        case False
        have "sort_source_target (x, y, d) = (x, y, d) \<or> sort_source_target (x, y, d) = (y, x, d)"
          by (simp add: sort_source_target_def)
        moreover have "sort_source_target (x, y, d) \<in> set (stabilized_edges H)"
          using fwd False by (simp add: stabilized_edges_alt)
        ultimately show ?thesis using False by metis
      qed
    next
      case bwd
      have "sort_source_target (y, x, d) = (y, x, d) \<or> sort_source_target (y, x, d) = (x, y, d)"
        by (simp add: sort_source_target_def)
      moreover have "sort_source_target (y, x, d) \<in> set (stabilized_edges H)"
        using bwd by (simp add: stabilized_edges_alt)
      ultimately show ?thesis using bwd(1) by metis
    qed
    then show ?thesis
      unfolding stabilize_graph_base get_adj_add_edges_from_dom by simp
  qed
  show ?thesis
  proof (cases "get_adj (stabilize_graph H) x y")
    case None
    with dom show ?thesis by (cases "get_adj H x y") auto
  next
    case (Some d')
    with sub [OF Some] show ?thesis by simp
  qed
qed

lemma get_adj_relabel_dom:
  assumes "wf_graph h"
  shows "get_adj (relabel_nodes h m) x y \<noteq> None
     \<longleftrightarrow> (\<exists>a b. get_adj h a b \<noteq> None \<and> m a = x \<and> m b = y)"
proof -
  let ?es = "map (\<lambda>(n1, n2, d). (m n1, m n2, d)) (edges_data h)"
  have mem: "(p, q, d) \<in> set ?es \<longleftrightarrow> (\<exists>a b. (a, b, d) \<in> set (edges_data h) \<and> m a = p \<and> m b = q)" for p q d
    by force
  have l: "get_adj (relabel_nodes h m) x y \<noteq> None \<longleftrightarrow>
      (\<exists>d. (x, y, d) \<in> set ?es) \<or> (\<not> directed h \<and> (\<exists>d. (y, x, d) \<in> set ?es))"
    unfolding relabel_nodes_base
    by (simp only: get_adj_add_edges_from_dom relabel_base_facts simp_thms)
  show ?thesis unfolding l
  proof
    assume "(\<exists>d. (x, y, d) \<in> set ?es) \<or> (\<not> directed h \<and> (\<exists>d. (y, x, d) \<in> set ?es))"
    then consider (f) d where "(x, y, d) \<in> set ?es" | (b) d where "\<not> directed h" "(y, x, d) \<in> set ?es"
      by blast
    then show "\<exists>a b. get_adj h a b \<noteq> None \<and> m a = x \<and> m b = y"
    proof cases
      case f
      then obtain a b where "(a, b, d) \<in> set (edges_data h)" "m a = x" "m b = y" unfolding mem by blast
      with edges_data_get_adj [OF assms, of a b d] show ?thesis by auto
    next
      case b
      then obtain a c where ac: "(a, c, d) \<in> set (edges_data h)" "m a = y" "m c = x" unfolding mem by blast
      from edges_data_get_adj [OF assms ac(1)] have "get_adj h c a = Some d"
        by (simp add: get_adj_sym [OF assms b(1), of c a])
      with ac show ?thesis by auto
    qed
  next
    assume "\<exists>a b. get_adj h a b \<noteq> None \<and> m a = x \<and> m b = y"
    then obtain a b d where ab: "get_adj h a b = Some d" "m a = x" "m b = y" by auto
    from edges_data_complete [OF assms ab(1)] ab(2,3)
    show "(\<exists>d. (x, y, d) \<in> set ?es) \<or> (\<not> directed h \<and> (\<exists>d. (y, x, d) \<in> set ?es))"
      unfolding mem by blast
  qed
qed

section \<open>Evaluation of further examples\<close>

lemma collide_graph_entries:
  "collide_graph = \<lparr>directed = False, entries =
     [(''a'', Map.empty, [(''A'', Map.empty)]), (''A'', Map.empty, [(''a'', Map.empty)])]\<rparr>"
  by (simp add: collide_graph_def graph_eval)

lemma lcc_collide: "largest_connected_component pos collide_graph = Inr collide_graph"
  by (simp add: collide_graph_entries canon_eval graph_eval)

lemma edge_keys2: "get_edge_key ''A'' ''A'' = ''A -> A''"
  by code_simp

lemma canon_collide:
  "stable_largest_connected_component ascii_str collide_graph = Inr \<lparr>directed = False, entries =
     [(''A'', Map.empty, [(''A'', Map.empty)])]\<rparr>"
  by (simp add: collide_graph_entries canon_eval graph_eval ascii_labels edge_keys2)

lemma charref_graph_entries:
  "charref_graph = \<lparr>directed = False, entries = [(''&#97;'', Map.empty, [])]\<rparr>"
  by (simp add: charref_graph_def graph_eval)

lemma canon_charref:
  "stable_largest_connected_component ascii_str charref_graph = Inr \<lparr>directed = False, entries =
     [(''a'', Map.empty, [])]\<rparr>"
  by (simp add: charref_graph_entries canon_eval graph_eval ascii_labels)

lemma canon_charref_twice:
  "stable_largest_connected_component ascii_str \<lparr>directed = False, entries = [(''a'', Map.empty, [])]\<rparr>
     = Inr \<lparr>directed = False, entries = [(''A'', Map.empty, [])]\<rparr>"
  by (simp add: canon_eval graph_eval ascii_labels)

lemma wf_upsert_edge: "wf_graph g \<Longrightarrow> upsert_edge g u v d = Inr g' \<Longrightarrow> wf_graph g'"
  by (auto simp: upsert_edge_def wf_add_edge split: sum.splits)

lemma wf_upsert_node: "wf_graph g \<Longrightarrow> upsert_node g n d = Inr g' \<Longrightarrow> wf_graph g'"
  by (auto simp: upsert_node_def wf_add_node split: sum.splits)

section \<open>Evaluation of the example with a node id that extends another\<close>

lemma prefix_graph_entries:
  "prefix_graph = \<lparr>directed = False, entries =
     [(''A'', Map.empty, [(''Z'', Map.empty)]),
      (''Z'', Map.empty, [(''A'', Map.empty), (''A  B'', Map.empty)]),
      (''A  B'', Map.empty, [(''Z'', Map.empty)])]\<rparr>"
  by (simp add: prefix_graph_def graph_eval)

lemma prefix_labels:
  "node_mapping ascii_str ''A'' = ''A''" "node_mapping ascii_str ''Z'' = ''Z''"
  "node_mapping ascii_str ''A  B'' = ''A  B''"
  "get_edge_key ''A'' ''Z'' = ''A -> Z''" "get_edge_key ''A  B'' ''Z'' = ''A  B -> Z''"
  by code_simp+

lemma components_prefix: "connected_components prefix_graph = [[''A'', ''Z'', ''A  B'']]"
  by code_simp

lemma lcc_prefix: "largest_connected_component pos prefix_graph = Inr prefix_graph"
  by (simp add: largest_connected_component_def components_prefix py_max_len_def,
      simp add: induced_subgraph_def subgraph_nodes_def get_node_def prefix_graph_entries graph_eval)

lemma edges_prefix:
  "edges_data prefix_graph = [(''A'', ''Z'', Map.empty), (''Z'', ''A  B'', Map.empty)]"
  by (simp add: prefix_graph_entries edges_data_def)

lemma prefix_order:
  "''A  B -> Z'' \<le> ''A -> Z''" "\<not> ''A -> Z'' \<le> ''A  B -> Z''"
  "''A'' \<le> ''A  B''" "''A'' \<le> ''Z''" "''A  B'' \<le> ''Z''"
  by code_simp+

lemma prefix_order2:
  "\<not> ''A  B'' \<le> ''A''" "\<not> ''Z'' \<le> ''A''" "\<not> ''Z'' \<le> ''A  B''"
  "\<not> ''A  B'' < ''A''" "\<not> ''Z'' < ''A''" "\<not> ''Z'' < ''A  B''"
  "''A'' < ''A  B''" "''A'' < ''Z''" "''A  B'' < ''Z''"
  by code_simp+

lemma relabel_base_prefix:
  "relabel_base prefix_graph (node_mapping ascii_str) = \<lparr>directed = False, entries =
     [(''A'', Map.empty, []), (''Z'', Map.empty, []), (''A  B'', Map.empty, [])]\<rparr>"
  by (simp add: prefix_graph_entries relabel_base_def add_nodes_from_def add_node_def ensure_node_def
      update_attrs_def set_node_attrs_def node_ids_def nodes_data_def empty_graph_def prefix_labels)

lemma relabel_prefix: "relabel_nodes prefix_graph (node_mapping ascii_str) = prefix_graph"
  unfolding relabel_nodes_base relabel_base_prefix edges_prefix
  by (simp add: prefix_labels prefix_graph_entries add_edge_def ensure_node_def node_ids_def
      get_adj_def neighbours_def set_adj_def Let_def)

lemma stabilized_edges_prefix:
  "stabilized_edges prefix_graph = [(''A  B'', ''Z'', Map.empty), (''A'', ''Z'', Map.empty)]"
  unfolding stabilized_edges_alt edges_prefix
  by (simp add: prefix_graph_entries sort_source_target_def edge_key_def prefix_labels prefix_order
      prefix_order2)

lemma sorted_base_prefix:
  "sorted_base prefix_graph = \<lparr>directed = False, entries =
     [(''A'', Map.empty, []), (''A  B'', Map.empty, []), (''Z'', Map.empty, [])]\<rparr>"
  by (simp add: prefix_graph_entries sorted_base_def add_nodes_from_def add_node_def ensure_node_def
      update_attrs_def node_ids_def nodes_data_def empty_graph_def prefix_order prefix_order2)

lemma stabilize_prefix:
  "stabilize_graph prefix_graph = \<lparr>directed = False, entries =
     [(''A'', Map.empty, [(''Z'', Map.empty)]),
      (''A  B'', Map.empty, [(''Z'', Map.empty)]),
      (''Z'', Map.empty, [(''A  B'', Map.empty), (''A'', Map.empty)])]\<rparr>"
  unfolding stabilize_graph_base sorted_base_prefix stabilized_edges_prefix
  by (simp add: add_edge_def ensure_node_def node_ids_def get_adj_def neighbours_def set_adj_def Let_def)

lemma canon_prefix:
  "stable_largest_connected_component ascii_str prefix_graph = Inr \<lparr>directed = False, entries =
     [(''A'', Map.empty, [(''Z'', Map.empty)]),
      (''A  B'', Map.empty, [(''Z'', Map.empty)]),
      (''Z'', Map.empty, [(''A  B'', Map.empty), (''A'', Map.empty)])]\<rparr>"
  by (simp only: stable_largest_connected_component_def lcc_prefix sum.case relabel_prefix
      stabilize_prefix)

lemma edges_canon_prefix:
  "edges_data \<lparr>directed = False, entries =
     [(''A'', Map.empty, [(''Z'', Map.empty)]),
      (''A  B'', Map.empty, [(''Z'', Map.empty)]),
      (''Z'', Map.empty, [(''A  B'', Map.empty), (''A'', Map.empty)])]\<rparr>
   = [(''A'', ''Z'', Map.empty), (''A  B'', ''Z'', Map.empty)]"
  by (simp add: edges_data_def)

section \<open>Claims about the graph store\<close>

text \<open>
  C10 (as amended). \<open>upsert_edge(a, b, properties)\<close> on the NetworkX backend succeeds
  when no key of \<open>properties\<close> is \<open>self\<close>, \<open>u_of_edge\<close> or \<open>v_of_edge\<close>, also when an
  endpoint was never upserted as a node; afterwards \<open>has_node\<close> is true for both
  endpoints, an endpoint that was missing is a node with no properties, and a node that
  existed keeps its properties. With one of these keys the call raises \<open>TypeError\<close>.
\<close>

theorem upsert_edge_materializes_endpoints:
  "if props ''self'' = None \<and> props ''u_of_edge'' = None \<and> props ''v_of_edge'' = None
   then \<exists>g'. upsert_edge g a b props = Inr g'
      \<and> storage_has_node g' a \<and> storage_has_node g' b
      \<and> (\<not> storage_has_node g a \<longrightarrow> storage_get_node g' a = Some Map.empty)
      \<and> (\<not> storage_has_node g b \<longrightarrow> storage_get_node g' b = Some Map.empty)
      \<and> (\<forall>n. storage_has_node g n \<longrightarrow> storage_get_node g' n = storage_get_node g n)
   else \<exists>msg. upsert_edge g a b props = Inl (TypeError msg)"
proof (cases "props ''self'' = None \<and> props ''u_of_edge'' = None \<and> props ''v_of_edge'' = None")
  case True
  then have "upsert_edge g a b props = Inr (add_edge g a b props)"
    by (simp add: upsert_edge_def bind_kwargs_def)
  moreover have "storage_has_node (add_edge g a b props) a \<and> storage_has_node (add_edge g a b props) b
     \<and> (\<not> storage_has_node g a \<longrightarrow> storage_get_node (add_edge g a b props) a = Some Map.empty)
     \<and> (\<not> storage_has_node g b \<longrightarrow> storage_get_node (add_edge g a b props) b = Some Map.empty)
     \<and> (\<forall>n. storage_has_node g n \<longrightarrow> storage_get_node (add_edge g a b props) n = storage_get_node g n)"
    by (auto simp: storage_has_node_def storage_get_node_def has_node_def
        node_ids_add_edge node_ids_ensure_node get_node_add_edge get_node_ensure_node)
  ultimately show ?thesis unfolding if_P [OF True] by blast
next
  case False
  then have "\<exists>msg. upsert_edge g a b props = Inl (TypeError msg)"
    by (auto simp: upsert_edge_def bind_kwargs_def)
  then show ?thesis unfolding if_not_P [OF False] .
qed

theorem upsert_edge_materializes_endpoints_witness:
  "\<not> storage_has_node (add_node (empty_graph False) ''B'' [''k'' \<mapsto> ''v'']) ''A''
   \<and> storage_has_node (add_node (empty_graph False) ''B'' [''k'' \<mapsto> ''v'']) ''B''
   \<and> (\<exists>g'. upsert_edge (add_node (empty_graph False) ''B'' [''k'' \<mapsto> ''v'']) ''A'' ''B''
              [''weight'' \<mapsto> ''1''] = Inr g'
        \<and> storage_has_node g' ''A'' \<and> storage_has_node g' ''B''
        \<and> storage_get_node g' ''A'' = Some Map.empty
        \<and> storage_get_node g' ''B'' = Some [''k'' \<mapsto> ''v''])"
proof -
  let ?g = "add_node (empty_graph False) ''B'' [''k'' \<mapsto> ''v'']"
  have a: "\<not> storage_has_node ?g ''A''" and b: "storage_has_node ?g ''B''"
    by (simp_all add: storage_has_node_def has_node_def node_ids_add_node
        node_ids_ensure_node, simp_all add: node_ids_def empty_graph_def)
  have v: "storage_get_node ?g ''B'' = Some [''k'' \<mapsto> ''v'']"
    by (simp add: storage_get_node_def get_node_def add_node_def ensure_node_def
        node_ids_def empty_graph_def update_attrs_def)
  have k: "[''weight'' \<mapsto> ''1''] ''self'' = None \<and> [''weight'' \<mapsto> ''1''] ''u_of_edge'' = None
      \<and> [''weight'' \<mapsto> ''1''] ''v_of_edge'' = None"
    by simp
  from upsert_edge_materializes_endpoints [of "[''weight'' \<mapsto> ''1'']" ?g "''A''" "''B''",
      unfolded if_P [OF k]]
  obtain g' where g': "upsert_edge ?g ''A'' ''B'' [''weight'' \<mapsto> ''1''] = Inr g'"
      "storage_has_node g' ''A''" "storage_has_node g' ''B''"
      "\<not> storage_has_node ?g ''A'' \<longrightarrow> storage_get_node g' ''A'' = Some Map.empty"
      "\<forall>n. storage_has_node ?g n \<longrightarrow> storage_get_node g' n = storage_get_node ?g n"
    by blast
  from g'(4) a have "storage_get_node g' ''A'' = Some Map.empty" by blast
  moreover from g'(5) b v have "storage_get_node g' ''B'' = Some [''k'' \<mapsto> ''v'']" by simp
  ultimately show ?thesis using a b g'(1,2,3) by blast
qed

text \<open>
  C10 as stated fails: a property named like a parameter of \<open>add_edge\<close> makes the call
  raise, and no node is created.
\<close>

theorem upsert_edge_reserved_key:
  "upsert_edge (empty_graph False) ''A'' ''B'' [''u_of_edge'' \<mapsto> ''x'']
     = Inl (TypeError ''got multiple values for argument u_of_edge'')
   \<and> \<not> storage_has_node (empty_graph False) ''A''"
  by (simp add: upsert_edge_def bind_kwargs_def storage_has_node_def has_node_def node_ids_def
      empty_graph_def)

section \<open>Claims about the record stores\<close>

text \<open>
  C2 (as amended). For \<open>JsonKVStorage.upsert\<close> over any stored state: a key present before
  the call keeps its stored value, the returned mapping has exactly the keys of the call
  that were not present, with the call's values, those values are stored, and keys outside
  the call are untouched. For \<open>DuckDBStorage.upsert\<close>: after the call every key of the call
  holds the call's value, whether or not it was present (insert or update), and every other
  key holds what it held.
\<close>

theorem record_upsert:
  assumes "distinct (map fst data)"
  shows "(\<forall>k v. json_get_by_id self_data k = Some v \<longrightarrow> json_get_by_id (snd (json_upsert self_data data)) k = Some v)
     \<and> fst ` set (fst (json_upsert self_data data)) = fst ` set data - fst ` set self_data
     \<and> (\<forall>k \<in> fst ` set data - fst ` set self_data.
           map_of (fst (json_upsert self_data data)) k = map_of data k
         \<and> json_get_by_id (snd (json_upsert self_data data)) k = map_of data k)
     \<and> (\<forall>k. k \<notin> fst ` set data \<longrightarrow> json_get_by_id (snd (json_upsert self_data data)) k = json_get_by_id self_data k)
     \<and> (\<forall>k. duckdb_get_by_id (snd (duckdb_upsert st data)) k
           = (case map_of data k of Some v \<Rightarrow> Some v | None \<Rightarrow> duckdb_get_by_id st k))"
proof -
  let ?left = "[(k, v) \<leftarrow> data. k \<notin> fst ` set self_data]"
  have dl: "distinct (map fst ?left)"
    using assms by (simp add: distinct_map_filter)
  have m: "map_of (dict_update self_data ?left) = map_of self_data ++ map_of ?left"
    by (simp only: dict_update_def map_of_fold_update map_of_rev_distinct [OF dl])
  have l: "\<And>k. map_of ?left k = (if k \<notin> fst ` set self_data then map_of data k else None)"
    by (rule map_of_filter_keys)
  have 1: "\<forall>k v. json_get_by_id self_data k = Some v \<longrightarrow> json_get_by_id (snd (json_upsert self_data data)) k = Some v"
    by (auto simp: json_get_by_id_def json_upsert_def m l map_add_def dest: map_of_SomeD
        intro: rev_image_eqI split: option.splits)
  have 2: "fst ` set (fst (json_upsert self_data data)) = fst ` set data - fst ` set self_data"
    unfolding json_upsert_def Let_def fst_conv keys_filter_keys by blast
  have 3: "\<forall>k \<in> fst ` set data - fst ` set self_data.
           map_of (fst (json_upsert self_data data)) k = map_of data k
         \<and> json_get_by_id (snd (json_upsert self_data data)) k = map_of data k"
    by (auto simp: json_get_by_id_def json_upsert_def m l map_add_def map_of_eq_None_iff
        split: option.splits)
  have 4: "\<forall>k. k \<notin> fst ` set data \<longrightarrow> json_get_by_id (snd (json_upsert self_data data)) k = json_get_by_id self_data k"
    by (auto simp: json_get_by_id_def json_upsert_def m l map_add_def map_of_eq_None_iff
        split: option.splits dest: map_of_SomeD intro: rev_image_eqI)
  have 5: "\<forall>k. duckdb_get_by_id (snd (duckdb_upsert st data)) k
           = (case map_of data k of Some v \<Rightarrow> Some v | None \<Rightarrow> duckdb_get_by_id st k)"
    by (auto simp: duckdb_get_by_id_def duckdb_upsert_def Let_def map_of_fold_update
        map_of_rev_distinct [OF assms] map_add_def split: option.splits)
  from 1 2 3 4 5 show ?thesis by blast
qed

theorem record_upsert_witness:
  "distinct (map fst [(''a'', ''new''), (''b'', ''two'')])
   \<and> json_get_by_id (snd (json_upsert [(''a'', ''old'')] [(''a'', ''new''), (''b'', ''two'')])) ''a'' = Some ''old''
   \<and> fst ` set (fst (json_upsert [(''a'', ''old'')] [(''a'', ''new''), (''b'', ''two'')])) = {''b''}
   \<and> json_get_by_id (snd (json_upsert [(''a'', ''old'')] [(''a'', ''new''), (''b'', ''two'')])) ''b'' = Some ''two''
   \<and> duckdb_get_by_id (snd (duckdb_upsert \<lparr>kv_store = [(''a'', ''old'')], data_rows = [(''a'', ''old'')]\<rparr>
         [(''a'', ''new''), (''b'', ''two'')])) ''b'' = Some ''two''"
proof -
  have d: "distinct (map fst [(''a'', ''new''), (''b'', ''two'')])" by simp
  have o: "json_get_by_id [(''a'', ''old'')] ''a'' = Some ''old''"
    by (simp add: json_get_by_id_def)
  from record_upsert [OF d, of "[(''a'', ''old'')]"
      "\<lparr>kv_store = [(''a'', ''old'')], data_rows = [(''a'', ''old'')]\<rparr>"] d o
  show ?thesis by auto
qed

text \<open>
  C2 as stated fails for \<open>DuckDBStorage\<close>: a store opened on a table that holds \<open>a\<close>
  overwrites the value of \<open>a\<close>.
\<close>

theorem duckdb_upsert_overwrites:
  "duckdb_get_by_id \<lparr>kv_store = [(''a'', ''old'')], data_rows = [(''a'', ''old'')]\<rparr> ''a'' = Some ''old''
   \<and> duckdb_get_by_id (snd (duckdb_upsert \<lparr>kv_store = [(''a'', ''old'')], data_rows = [(''a'', ''old'')]\<rparr>
         [(''a'', ''new'')])) ''a'' = Some ''new''"
  by (simp add: duckdb_get_by_id_def duckdb_upsert_def Let_def)

section \<open>Claims about the vector stores\<close>



text \<open>
  C8. If the embedding call of some batch fails, \<open>NanoVectorDBStorage.upsert\<close> fails with
  the exception of a failing batch and the state of the vector index is the one before
  the call: the index's \<open>upsert\<close> is not reached, whatever the other batches returned.
\<close>

theorem nano_upsert_embedding_failure:
  assumes "data \<noteq> []"
    and "contents_of data = Inr cs"
    and "make_batches (max_batch_size cfg) cs = Inr batches"
    and "b \<in> set batches" and "embedding_func b = Inl e"
  shows "\<exists>e' b'. b' \<in> set batches \<and> embedding_func b' = Inl e'
     \<and> nano_upsert cfg embedding_func client_upsert client data = (Inl e', client)"
proof -
  from gather_fails [of b batches embedding_func e, OF assms(4,5)] obtain e' b' where
    f: "b' \<in> set batches" "embedding_func b' = Inl e'" "gather (map embedding_func batches) = Inl e'"
    by blast
  have "nano_list_data cfg embedding_func data = Inl e'"
    using assms(2,3) f(3) by (simp add: nano_list_data_def)
  then have "nano_upsert cfg embedding_func client_upsert client data = (Inl e', client)"
    using assms(1) by (simp add: nano_upsert_def)
  with f show ?thesis by blast
qed

theorem nano_upsert_embedding_failure_witness:
  "three_records \<noteq> []
   \<and> contents_of three_records = Inr [''x'', ''yy'', ''zzz'']
   \<and> make_batches (max_batch_size \<lparr>meta_fields = [''source''], max_batch_size = 2\<rparr>) [''x'', ''yy'', ''zzz'']
       = Inr [[''x'', ''yy''], [''zzz'']]
   \<and> [''zzz''] \<in> set [[''x'', ''yy''], [''zzz'']]
   \<and> short_embedding [''x'', ''yy''] = Inr [1, 2]
   \<and> short_embedding [''zzz''] = Inl (EmbeddingError ''text too long'')
   \<and> nano_upsert \<lparr>meta_fields = [''source''], max_batch_size = 2\<rparr> short_embedding log_client_upsert
         [[(''__id__'', Text ''old''), (''__vector__'', Vector 7)]] three_records
       = (Inl (EmbeddingError ''text too long''), [[(''__id__'', Text ''old''), (''__vector__'', Vector 7)]])"
proof -
  let ?cfg = "\<lparr>meta_fields = [''source''], max_batch_size = 2\<rparr>"
  let ?c = "[[(''__id__'', Text ''old''), (''__vector__'', Vector (7::nat))]]"
  have h1: "three_records \<noteq> []" by (simp add: three_records_def)
  have h2: "contents_of three_records = Inr [''x'', ''yy'', ''zzz'']"
    by (rule three_records_batches)
  have h3: "make_batches (max_batch_size ?cfg) [''x'', ''yy'', ''zzz''] = Inr [[''x'', ''yy''], [''zzz'']]"
    by (simp add: three_records_batches)
  have h4: "[''zzz''] \<in> set [[''x'', ''yy''], [''zzz'']]" by simp
  have h5: "short_embedding [''zzz''] = Inl (EmbeddingError ''text too long'')"
    by (simp add: short_embedding_def)
  have h6: "short_embedding [''x'', ''yy''] = Inr [1, 2]"
    by (simp add: short_embedding_def)
  from nano_upsert_embedding_failure [where data = three_records and cfg = ?cfg
      and b = "[''zzz'']" and embedding_func = short_embedding and client_upsert = log_client_upsert
      and client = ?c, OF h1 h2 h3 h4 h5]
  obtain e' b' where
    f: "b' \<in> set [[''x'', ''yy''], [''zzz'']]" "short_embedding b' = Inl e'"
      "nano_upsert ?cfg short_embedding log_client_upsert ?c three_records = (Inl e', ?c)"
    by blast
  from f(1,2) h5 h6 have "e' = EmbeddingError ''text too long''" by auto
  with f(3) h1 h2 h3 h4 h5 h6 show ?thesis by simp
qed

text \<open>
  C9 fails on the code. With an allow-listed metadata field, a collection that holds \<open>a\<close>
  and the records \<open>a\<close> (content \<open>x\<close>) and \<open>b\<close> (content \<open>yy\<close>),
  \<open>ChromaDBStorage.upsert\<close> stores \<open>b\<close> with the metadata and the embedding of \<open>a\<close>
  (\<open>1\<close>, the length of \<open>x\<close>; the embedding of \<open>yy\<close> is \<open>2\<close>) and returns \<open>[]\<close>.
\<close>

theorem chroma_upsert_misaligned:
  "chroma_upsert \<lparr>meta_fields = [''source''], max_batch_size = 8\<rparr> len_embedding
       [(''a'', Content ''x'', 1)] two_records
     = (Inr [], [(''a'', Content ''x'', 1), (''b'', Json [(''source'', Text ''s1'')], 1)])
   \<and> len_embedding [''yy''] = Inr [2]"
  by (simp add: chroma_upsert_def two_records_def make_batches_def py_range_def upt_rec
      len_embedding_def np_concatenate_def make_list_data_def dict_update_def
      collection_upsert_def)

section \<open>Claims about the graph canonicalizer\<close>

text \<open>
  C5 (as amended). For a well-formed graph, the node ids of the result are exactly the
  ids \<open>html_unescape (strip (upper id))\<close> of the nodes \<open>id\<close> of the retained component
  (upper-case first, then strip, then HTML-unescape), each once, so that nodes whose
  ids collide are one node, in ascending order.
\<close>

theorem canonical_node_ids:
  assumes "wf_graph g"
    and "largest_connected_component (set_position L) g = Inr h"
    and "stable_largest_connected_component L g = Inr out"
  shows "node_ids out = sort (remdups (map (\<lambda>n. html_unescape L (strip L (upper L n))) (node_ids h)))"
proof -
  let ?m = "node_mapping L"
  let ?H = "relabel_nodes h ?m"
  have m: "(\<lambda>n. html_unescape L (strip L (upper L n))) = ?m"
    by (simp add: node_mapping_def fun_eq_iff)
  from assms(2,3) have out: "out = stabilize_graph ?H"
    by (simp add: stable_largest_connected_component_def)
  have wh: "wf_graph h" by (rule wf_largest_connected_component [OF assms(1,2)])
  have wH: "wf_graph ?H" by (rule wf_relabel_nodes)
  have ids: "node_ids out = sort (node_ids ?H)"
    unfolding out by (rule node_ids_stabilize_graph [OF wH])
  have s: "set (node_ids ?H) = ?m ` set (node_ids h)" by (rule set_node_ids_relabel_nodes [OF wh])
  have "sort (node_ids ?H) = sort (remdups (map ?m (node_ids h)))"
  proof (rule sorted_distinct_set_unique)
    show "distinct (sort (node_ids ?H))" using wf_graphD(1) [OF wH] by simp
    show "set (sort (node_ids ?H)) = set (sort (remdups (map ?m (node_ids h))))" using s by simp
  qed simp_all
  with ids show ?thesis unfolding m by simp
qed

theorem canonical_node_ids_witness:
  "wf_graph collide_graph
   \<and> largest_connected_component (set_position ascii_str) collide_graph = Inr collide_graph
   \<and> node_ids collide_graph = [''a'', ''A'']
   \<and> stable_largest_connected_component ascii_str collide_graph
       = Inr \<lparr>directed = False, entries = [(''A'', Map.empty, [(''A'', Map.empty)])]\<rparr>
   \<and> node_ids \<lparr>directed = False, entries = [(''A'', Map.empty, [(''A'', Map.empty)])]\<rparr>
       = sort (remdups (map (\<lambda>n. html_unescape ascii_str (strip ascii_str (upper ascii_str n)))
           (node_ids collide_graph)))
   \<and> node_ids \<lparr>directed = False, entries = [(''A'', Map.empty, [(''A'', Map.empty)])]\<rparr> = [''A'']"
proof -
  have w: "wf_graph collide_graph"
    unfolding collide_graph_def by (intro wf_add_edge wf_empty_graph)
  have n: "node_ids collide_graph = [''a'', ''A'']"
    by (simp add: collide_graph_entries node_ids_def)
  have o: "node_ids \<lparr>directed = False, entries = [(''A'', Map.empty, [(''A'', Map.empty)])]\<rparr> = [''A'']"
    by (simp add: node_ids_def)
  from canonical_node_ids [OF w lcc_collide canon_collide] w lcc_collide canon_collide n o
  show ?thesis by (intro conjI)
qed

text \<open>
  C5 as stated fails: the node \<open>&#97;\<close> is renamed \<open>a\<close>, while unescaping first, then
  upper-casing and stripping gives \<open>A\<close>.
\<close>

theorem node_label_order_counterexample:
  "node_ids charref_graph = [''&#97;'']
   \<and> stable_largest_connected_component ascii_str charref_graph
       = Inr \<lparr>directed = False, entries = [(''a'', Map.empty, [])]\<rparr>
   \<and> node_ids \<lparr>directed = False, entries = [(''a'', Map.empty, [])]\<rparr> = [''a'']
   \<and> strip ascii_str (upper ascii_str (html_unescape ascii_str ''&#97;'')) = ''A''"
proof -
  have 1: "node_ids charref_graph = [''&#97;'']"
    by (simp add: charref_graph_entries node_ids_def)
  have 2: "node_ids \<lparr>directed = False, entries = [(''a'', Map.empty, [])]\<rparr> = [''a'']"
    by (simp add: node_ids_def)
  have 3: "strip ascii_str (upper ascii_str (html_unescape ascii_str ''&#97;'')) = ''A''"
    by (simp only: ascii_str_def pystr.simps ascii_labels)
  from 1 canon_charref 2 3 show ?thesis by (intro conjI)
qed

text \<open>
  C6 (as amended). The result of \<open>stable_largest_connected_component\<close> is built from the
  relabelled largest component \<open>H\<close> by inserting, after the sorted nodes, the edge list of
  \<open>_stabilize_graph\<close>, and that list is sorted by the string \<open>source -> target\<close>. In the
  result itself the edges, as \<open>edges(data=True)\<close> yields them, are in strictly ascending
  order of source and, for equal sources, of target. For an undirected graph they are the
  stored adjacencies with the smaller endpoint first; for a directed graph they are all
  stored adjacencies. The result has an edge from \<open>s\<close> to \<open>t\<close> exactly when the largest
  component has an edge from a node renamed \<open>s\<close> to a node renamed \<open>t\<close>, so that a directed
  edge keeps its direction.
\<close>

theorem canonical_edge_order:
  assumes "stable_largest_connected_component L g = Inr out"
  shows "\<exists>h. largest_connected_component (set_position L) g = Inr h
     \<and> out = add_edges_from
           (add_nodes_from (empty_graph (directed g))
              (sort_key fst (nodes_data (relabel_nodes h (node_mapping L)))))
           (stabilized_edges (relabel_nodes h (node_mapping L)))
     \<and> sorted (map (\<lambda>(s, t, d). get_edge_key s t) (stabilized_edges (relabel_nodes h (node_mapping L))))
     \<and> directed out = directed g
     \<and> sorted_wrt edge_before (edges_data out)
     \<and> (\<forall>s t d. (s, t, d) \<in> set (edges_data out)
           \<longleftrightarrow> get_adj out s t = Some d \<and> (directed g \<or> s \<le> t))
     \<and> (\<forall>s t. get_adj out s t \<noteq> None
           \<longleftrightarrow> (\<exists>a b. get_adj h a b \<noteq> None \<and> node_mapping L a = s \<and> node_mapping L b = t))"
proof -
  from assms obtain h where h: "largest_connected_component (set_position L) g = Inr h"
    and out: "out = stabilize_graph (relabel_nodes h (node_mapping L))"
    by (auto simp: stable_largest_connected_component_def split: sum.splits)
  let ?H = "relabel_nodes h (node_mapping L)"
  have dh: "directed h = directed g" using h by (rule directed_largest_connected_component)
  have wh: "wf_graph h" using h by (auto dest!: largest_connected_componentD intro: wf_induced_subgraph)
  have wH: "wf_graph ?H" by (rule wf_relabel_nodes)
  have wo: "wf_graph out" unfolding out by (rule wf_stabilize_graph)
  have d: "directed out = directed g" unfolding out by (simp add: dh)
  have k: "(\<lambda>(s, t, d). get_edge_key s t) = edge_key"
    by (auto simp: edge_key_def fun_eq_iff)
  have 1: "out = add_edges_from
           (add_nodes_from (empty_graph (directed g)) (sort_key fst (nodes_data ?H)))
           (stabilized_edges ?H)"
    unfolding out by (simp add: stabilize_graph_def Let_def dh)
  have 2: "sorted (map (\<lambda>(s, t, d). get_edge_key s t) (stabilized_edges ?H))"
    unfolding k by (rule sorted_stabilized_edges)
  have so: "sorted (node_ids out)" unfolding out by (simp add: node_ids_stabilize_graph [OF wH])
  have fk: "\<forall>n. sorted_wrt (<) (fwd_keys out n)" unfolding out by (simp add: fwd_keys_stabilize_graph)
  have 3: "sorted_wrt edge_before (edges_data out)" by (rule edges_data_sorted(1) [OF wo so fk])
  have 4: "\<forall>s t d. (s, t, d) \<in> set (edges_data out)
           \<longleftrightarrow> get_adj out s t = Some d \<and> (directed g \<or> s \<le> t)"
    using edges_data_sorted(2) [OF wo so fk] unfolding d by blast
  have 5: "\<forall>s t. get_adj out s t \<noteq> None
           \<longleftrightarrow> (\<exists>a b. get_adj h a b \<noteq> None \<and> node_mapping L a = s \<and> node_mapping L b = t)"
    unfolding out get_adj_stabilize_graph [OF wH] get_adj_relabel_dom [OF wh] by blast
  from h 1 2 d 3 4 5 show ?thesis by blast
qed

theorem canonical_edge_order_witness:
  "stable_largest_connected_component ascii_str prefix_graph = Inr \<lparr>directed = False, entries =
     [(''A'', Map.empty, [(''Z'', Map.empty)]),
      (''A  B'', Map.empty, [(''Z'', Map.empty)]),
      (''Z'', Map.empty, [(''A  B'', Map.empty), (''A'', Map.empty)])]\<rparr>
   \<and> edges_data \<lparr>directed = False, entries =
     [(''A'', Map.empty, [(''Z'', Map.empty)]),
      (''A  B'', Map.empty, [(''Z'', Map.empty)]),
      (''Z'', Map.empty, [(''A  B'', Map.empty), (''A'', Map.empty)])]\<rparr>
     = [(''A'', ''Z'', Map.empty), (''A  B'', ''Z'', Map.empty)]
   \<and> sorted_wrt edge_before [(''A'', ''Z'', Map.empty), (''A  B'', ''Z'', Map.empty)]
   \<and> stabilized_edges (relabel_nodes prefix_graph (node_mapping ascii_str))
     = [(''A  B'', ''Z'', Map.empty), (''A'', ''Z'', Map.empty)]
   \<and> sorted (map (\<lambda>(s, t, d). get_edge_key s t)
        (stabilized_edges (relabel_nodes prefix_graph (node_mapping ascii_str))))"
proof -
  from canonical_edge_order [OF canon_prefix] obtain h where
    h: "largest_connected_component (set_position ascii_str) prefix_graph = Inr h"
      "sorted (map (\<lambda>(s, t, d). get_edge_key s t) (stabilized_edges (relabel_nodes h (node_mapping ascii_str))))"
      "sorted_wrt edge_before (edges_data \<lparr>directed = False, entries =
         [(''A'', Map.empty, [(''Z'', Map.empty)]),
          (''A  B'', Map.empty, [(''Z'', Map.empty)]),
          (''Z'', Map.empty, [(''A  B'', Map.empty), (''A'', Map.empty)])]\<rparr>)"
    by blast
  from h(1) have "h = prefix_graph" by (simp add: lcc_prefix)
  with h(2) have "sorted (map (\<lambda>(s, t, d). get_edge_key s t)
        (stabilized_edges (relabel_nodes prefix_graph (node_mapping ascii_str))))" by simp
  moreover have "stabilized_edges (relabel_nodes prefix_graph (node_mapping ascii_str))
     = [(''A  B'', ''Z'', Map.empty), (''A'', ''Z'', Map.empty)]"
    by (simp only: relabel_prefix stabilized_edges_prefix)
  moreover from h(3) have "sorted_wrt edge_before [(''A'', ''Z'', Map.empty), (''A  B'', ''Z'', Map.empty)]"
    by (simp only: edges_canon_prefix)
  ultimately show ?thesis using canon_prefix edges_canon_prefix by (intro conjI)
qed

text \<open>
  C6 as stated fails for the order of the result's edges: with the node ids \<open>A\<close> and
  \<open>A  B\<close> (two spaces) joined to \<open>Z\<close>, the result yields the edge of \<open>A\<close> first, and the
  key strings of its edges are not in ascending order.
\<close>

theorem edge_key_order_counterexample:
  "stable_largest_connected_component ascii_str prefix_graph = Inr \<lparr>directed = False, entries =
     [(''A'', Map.empty, [(''Z'', Map.empty)]),
      (''A  B'', Map.empty, [(''Z'', Map.empty)]),
      (''Z'', Map.empty, [(''A  B'', Map.empty), (''A'', Map.empty)])]\<rparr>
   \<and> map (\<lambda>(s, t, d). get_edge_key s t) (edges_data \<lparr>directed = False, entries =
     [(''A'', Map.empty, [(''Z'', Map.empty)]),
      (''A  B'', Map.empty, [(''Z'', Map.empty)]),
      (''Z'', Map.empty, [(''A  B'', Map.empty), (''A'', Map.empty)])]\<rparr>)
     = [''A -> Z'', ''A  B -> Z'']
   \<and> \<not> sorted [''A -> Z'', ''A  B -> Z'']"
proof -
  have "map (\<lambda>(s, t, d). get_edge_key s t) (edges_data \<lparr>directed = False, entries =
     [(''A'', Map.empty, [(''Z'', Map.empty)]),
      (''A  B'', Map.empty, [(''Z'', Map.empty)]),
      (''Z'', Map.empty, [(''A  B'', Map.empty), (''A'', Map.empty)])]\<rparr>)
     = [''A -> Z'', ''A  B -> Z'']"
    by (simp only: edges_canon_prefix list.map prod.case prefix_labels)
  moreover have "\<not> sorted [''A -> Z'', ''A  B -> Z'']"
    using prefix_order(2) by simp
  ultimately show ?thesis using canon_prefix by (intro conjI)
qed

end
